theory Spec2Isabelle
  imports Main "HOL-Library.Sublist"
begin

section \<open>The update scheduler (core/observer/scheduler.js)\<close>

subsection \<open>Data\<close>

text \<open>
  A watcher, as far as the scheduler reads it: its \<open>id\<close>, whether it has a
  \<open>before\<close> hook, the \<open>user\<close> flag, its \<open>expression\<close> and the owning
  instance \<open>vm\<close> (a reference, here a number).
\<close>

record watcher =
  id_w :: nat
  has_before :: bool
  user :: bool
  expression :: string
  vm :: nat

text \<open>
  The values the presence object \<open>has\<close> holds at a key: \<open>true\<close> (set by
  \<open>queueWatcher\<close>) or \<open>null\<close> (set by the flush loop); an absent key is
  \<open>undefined\<close>, the map's \<open>None\<close>.
\<close>

datatype hasv = HTrue | HNull

text \<open>
  The calls the scheduler makes to its collaborators, in the order it makes them. The
  trace is the only observation of \<open>watcher.before()\<close>, \<open>watcher.run()\<close>,
  \<open>warn\<close>, \<open>nextTick\<close> and the lifecycle hooks.
\<close>

datatype sevent =
    Before watcher
  | Run watcher
  | Warn string nat
  | NextTick
  | Activated nat
  | Updated watcher
  | DevtoolsFlush

record scheduler =
  queue :: "watcher list"
  activatedChildren :: "nat list"
  has :: "nat \<rightharpoonup> hasv"
  circular :: "nat \<rightharpoonup> nat"
  waiting :: bool
  flushing :: bool
  index :: nat
  trace :: "sevent list"

text \<open>
  What the scheduler does not decide: the build (\<open>process.env.NODE_ENV\<close>),
  \<open>config.async\<close>, \<open>devtools && config.devtools\<close>, the test of
  \<open>callUpdatedHooks\<close> on the owning instance, and what a watcher's \<open>run()\<close>
  does to the scheduler: the watchers it passes to \<open>queueWatcher\<close>, in order, which
  may depend on everything that has happened so far (the trace).
\<close>

record env =
  production :: bool
  async :: bool
  devtools_on :: bool
  updatable :: "watcher \<Rightarrow> bool"
  run :: "sevent list \<Rightarrow> watcher \<Rightarrow> watcher list"

definition MAX_UPDATE_COUNT :: nat where
  "MAX_UPDATE_COUNT = 100"

definition initial :: scheduler where
  "initial = \<lparr>queue = [], activatedChildren = [], has = Map.empty, circular = Map.empty,
     waiting = False, flushing = False, index = 0, trace = []\<rparr>"

subsection \<open>Operations\<close>

definition resetSchedulerState :: "env \<Rightarrow> scheduler \<Rightarrow> scheduler" where
  "resetSchedulerState e s =
     s\<lparr>index := 0, queue := [], activatedChildren := [], has := Map.empty,
       circular := (if \<not> production e then Map.empty else circular s),
       waiting := False, flushing := False\<rparr>"

text \<open>
  The backward scan of \<open>queueWatcher\<close>:
  \<^verbatim>\<open>let i = queue.length - 1
  while (i > index && queue[i].id > watcher.id) { i-- }\<close>
  The counter of the model is \<open>i + 1\<close>, the position \<open>splice\<close> inserts at, so that
  the \<open>i = -1\<close> of an empty queue is \<open>0\<close>.
\<close>

fun scan :: "watcher list \<Rightarrow> nat \<Rightarrow> nat \<Rightarrow> nat \<Rightarrow> nat" where
  "scan q idx k 0 = 0"
| "scan q idx k (Suc i) =
     (if i > idx \<and> id_w (q ! i) > k then scan q idx k i else Suc i)"

text \<open>
  The part of \<open>queueWatcher\<close> that changes the queue: \<open>has[id] = true\<close>, then
  \<open>queue.push(watcher)\<close> or the scan and \<open>queue.splice(i + 1, 0, watcher)\<close>.
\<close>

definition enqueue :: "watcher \<Rightarrow> scheduler \<Rightarrow> scheduler" where
  "enqueue w s =
     (let s1 = s\<lparr>has := (has s)(id_w w \<mapsto> HTrue)\<rparr> in
      if \<not> flushing s1 then s1\<lparr>queue := queue s1 @ [w]\<rparr>
      else
        let p = scan (queue s1) (index s1) (id_w w) (length (queue s1)) in
        s1\<lparr>queue := take p (queue s1) @ [w] @ drop p (queue s1)\<rparr>)"

text \<open>\<open>queueActivatedComponent\<close>; setting \<open>vm._inactive\<close> is the instance's matter.\<close>

definition queueActivatedComponent :: "nat \<Rightarrow> scheduler \<Rightarrow> scheduler" where
  "queueActivatedComponent v s = s\<lparr>activatedChildren := activatedChildren s @ [v]\<rparr>"

definition loop_warning :: "watcher \<Rightarrow> string" where
  "loop_warning w =
     ''You may have an infinite update loop '' @
     (if user w then ''in watcher with expression \"'' @ expression w @ ''\"''
      else ''in a component render function.'')"

text \<open>
  What follows the loop in \<open>flushSchedulerQueue\<close>: the copies of the two queues, the
  reset, then the hooks (\<open>callActivatedHooks\<close> forward, \<open>callUpdatedHooks\<close> from the
  last watcher to the first) and the devtools event.
\<close>

definition after_loop :: "env \<Rightarrow> scheduler \<Rightarrow> scheduler" where
  "after_loop e s =
     (let activatedQueue = activatedChildren s;
          updatedQueue = queue s;
          s1 = resetSchedulerState e s
      in s1\<lparr>trace := trace s1 @ map Activated activatedQueue
                @ map Updated (filter (updatable e) (rev updatedQueue))
                @ (if devtools_on e then [DevtoolsFlush] else [])\<rparr>)"

text \<open>
  \<open>queueWatcher\<close>, \<open>flushSchedulerQueue\<close>, its loop and the calls of one \<open>run()\<close>
  call each other: in the synchronous diagnostic configuration \<open>queueWatcher\<close> flushes
  at once. \<open>queue.sort((a, b) => a.id - b.id)\<close> is \<open>sort_key id_w\<close>; the two agree
  whenever no id is queued twice, whether or not the engine's sort is stable. The
  loop need not end, so every iteration takes one unit of fuel. The
  result is \<open>Inr s\<close> when the call has returned in state \<open>s\<close>, and \<open>Inl s\<close> when the
  fuel ran out in state \<open>s\<close> with the loop still running.
\<close>

function queueWatcher :: "env \<Rightarrow> nat \<Rightarrow> watcher \<Rightarrow> scheduler \<Rightarrow> scheduler + scheduler"
  and flushSchedulerQueue :: "env \<Rightarrow> nat \<Rightarrow> scheduler \<Rightarrow> scheduler + scheduler"
  and flush_loop :: "env \<Rightarrow> nat \<Rightarrow> scheduler \<Rightarrow> scheduler + scheduler"
  and run_calls :: "env \<Rightarrow> nat \<Rightarrow> watcher list \<Rightarrow> scheduler \<Rightarrow> scheduler + scheduler"
where
  "queueWatcher e n w s =
     (if has s (id_w w) \<noteq> Some HTrue then
        (let s1 = enqueue w s in
         if \<not> waiting s1 then
           (let s2 = s1\<lparr>waiting := True\<rparr> in
            if \<not> production e \<and> \<not> async e then flushSchedulerQueue e n s2
            else Inr (s2\<lparr>trace := trace s2 @ [NextTick]\<rparr>))
         else Inr s1)
      else Inr s)"
| "flushSchedulerQueue e n s =
     (let s1 = s\<lparr>flushing := True\<rparr>;
          s2 = s1\<lparr>queue := sort_key id_w (queue s1)\<rparr>
      in case flush_loop e n (s2\<lparr>index := 0\<rparr>) of
           Inl s3 \<Rightarrow> Inl s3
         | Inr s3 \<Rightarrow> Inr (after_loop e s3))"
| "flush_loop e n s =
     (if index s < length (queue s) then
        (case n of
           0 \<Rightarrow> Inl s
         | Suc m \<Rightarrow>
            (let w = queue s ! index s;
                 s1 = (if has_before w then s\<lparr>trace := trace s @ [Before w]\<rparr> else s);
                 i = id_w w;
                 s2 = s1\<lparr>has := (has s1)(i \<mapsto> HNull)\<rparr>;
                 s3 = s2\<lparr>trace := trace s2 @ [Run w]\<rparr>
             in case run_calls e m (run e (trace s2) w) s3 of
                  Inl s4 \<Rightarrow> Inl s4
                | Inr s4 \<Rightarrow>
                   if \<not> production e \<and> has s4 i = Some HTrue then
                     (let c = (case circular s4 i of None \<Rightarrow> 0 | Some c \<Rightarrow> c) + 1;
                          s5 = s4\<lparr>circular := (circular s4)(i \<mapsto> c)\<rparr>
                      in if c > MAX_UPDATE_COUNT
                         then Inr (s5\<lparr>trace := trace s5 @ [Warn (loop_warning w) (vm w)]\<rparr>)
                         else flush_loop e m (s5\<lparr>index := index s5 + 1\<rparr>))
                   else flush_loop e m (s4\<lparr>index := index s4 + 1\<rparr>)))
      else Inr s)"
| "run_calls e n [] s = Inr s"
| "run_calls e n (w # ws) s =
     (case queueWatcher e n w s of
        Inl s1 \<Rightarrow> Inl s1
      | Inr s1 \<Rightarrow> run_calls e n ws s1)"
  by pat_completeness auto
termination
  by (relation "inv_image (less_than <*lex*> less_than <*lex*> less_than)
        (\<lambda>x. case x of
           Inl (Inl (e, n, w, s)) \<Rightarrow> (n, 2::nat, 0::nat)
         | Inl (Inr (e, n, s)) \<Rightarrow> (n, 1, 0)
         | Inr (Inl (e, n, s)) \<Rightarrow> (n, 0, 0)
         | Inr (Inr (e, n, ws, s)) \<Rightarrow> (n, 3, length ws))") auto

declare queueWatcher.simps [simp del] flushSchedulerQueue.simps [simp del]
  flush_loop.simps [simp del]

subsection \<open>Observations on the scheduler\<close>

text \<open>The watchers whose \<open>run()\<close> was called, in the order of the calls.\<close>

definition runs :: "sevent list \<Rightarrow> watcher list" where
  "runs tr = concat (map (\<lambda>ev. case ev of Run w \<Rightarrow> [w] | _ \<Rightarrow> []) tr)"

text \<open>How often a watcher with the id \<open>i\<close> was run.\<close>

definition run_count :: "nat \<Rightarrow> sevent list \<Rightarrow> nat" where
  "run_count i tr = length (filter (\<lambda>x. id_w x = i) (runs tr))"

text \<open>How often the scheduler has warned of an infinite update loop.\<close>

definition warnings :: "sevent list \<Rightarrow> nat" where
  "warnings tr = length (filter (\<lambda>ev. case ev of Warn m v \<Rightarrow> True | _ \<Rightarrow> False) tr)"

text \<open>What one iteration of the loop records before the watcher's \<open>run()\<close> acts.\<close>

definition visit :: "watcher \<Rightarrow> sevent list" where
  "visit w = (if has_before w then [Before w] else []) @ [Run w]"

text \<open>The state a call ended in, returned or out of fuel.\<close>

definition state_of :: "scheduler + scheduler \<Rightarrow> scheduler" where
  "state_of r = (case r of Inl s \<Rightarrow> s | Inr s \<Rightarrow> s)"

text \<open>\<open>circular[id] || 0\<close>.\<close>

definition counter :: "scheduler \<Rightarrow> nat \<Rightarrow> nat" where
  "counter s i = (case circular s i of None \<Rightarrow> 0 | Some c \<Rightarrow> c)"

text \<open>
  What \<open>queueWatcher\<close> comes to while a flush is scheduled or running (\<open>waiting\<close>
  is set): the presence test and the insertion.
\<close>

definition requeue :: "watcher \<Rightarrow> scheduler \<Rightarrow> scheduler" where
  "requeue w s = (if has s (id_w w) \<noteq> Some HTrue then enqueue w s else s)"

definition requeue_all :: "watcher list \<Rightarrow> scheduler \<Rightarrow> scheduler" where
  "requeue_all ws s = foldl (\<lambda>t x. requeue x t) s ws"


text \<open>
  Between two flushes: no flush is running, no id is queued twice, the presence
  object holds \<open>true\<close> for exactly the ids of the queue, and a flush is scheduled
  when something is queued.
\<close>

definition idle_inv :: "scheduler \<Rightarrow> bool" where
  "idle_inv s \<longleftrightarrow> \<not> flushing s \<and> distinct (map id_w (queue s))
     \<and> (\<forall>i. has s i = Some HTrue \<longleftrightarrow> i \<in> id_w ` set (queue s))
     \<and> (queue s \<noteq> [] \<longrightarrow> waiting s)"

section \<open>The array interceptor (core/observer/array.js)\<close>

datatype array_method = Push | Pop | Shift | Unshift | Splice | Sort | Reverse

definition methodsToPatch :: "array_method list" where
  "methodsToPatch = [Push, Pop, Shift, Unshift, Splice, Sort, Reverse]"

text \<open>
  The calls a mutator makes, in order: the cached native operation with the arguments it
  was given, \<open>ob.observeArray(inserted)\<close>, \<open>ob.dep.notify()\<close>.
\<close>

datatype 'a aevent =
    Native array_method "'a list"
  | ObserveArray "'a list"
  | Notify

record 'a observed =
  items :: "'a list"
  calls :: "'a aevent list"

text \<open>
  \<open>original\<close> is \<open>arrayProto[method]\<close>, not a part of the repository: a parameter,
  which maps the array and the arguments to the new array and the native result.
  \<open>inserted\<close> stays \<open>undefined\<close> (\<open>None\<close>) outside the three cases of the switch;
  an empty array is truthy, so \<open>observeArray\<close> is called for it too.
\<close>

definition mutator ::
  "(array_method \<Rightarrow> 'a list \<Rightarrow> 'a list \<Rightarrow> 'a list \<times> 'r) \<Rightarrow> array_method \<Rightarrow> 'a list \<Rightarrow>
   'a observed \<Rightarrow> 'r \<times> 'a observed" where
  "mutator original m args this =
     (let (arr, result) = original m (items this) args;
          this1 = this\<lparr>items := arr, calls := calls this @ [Native m args]\<rparr>;
          inserted = (case m of
                        Push \<Rightarrow> Some args
                      | Unshift \<Rightarrow> Some args
                      | Splice \<Rightarrow> Some (drop 2 args)
                      | _ \<Rightarrow> None);
          this2 = (case inserted of
                     Some xs \<Rightarrow> this1\<lparr>calls := calls this1 @ [ObserveArray xs]\<rparr>
                   | None \<Rightarrow> this1);
          this3 = this2\<lparr>calls := calls this2 @ [Notify]\<rparr>
      in (result, this3))"

section \<open>The deferred-unit resolver (core/vdom/helpers/resolve-async-component.js)\<close>

subsection \<open>Data\<close>

text \<open>
  The values a producer hands over, as far as \<open>ensureCtor\<close> tells them apart: a plain
  options object, a constructor function, a module namespace object with its
  \<open>default\<close> export (which may be missing), and what \<open>base.extend\<close> builds.
\<close>

datatype comp =
    Options nat
  | Ctor nat
  | Module "comp option"
  | Extend nat comp

text \<open>\<open>isObject\<close> is false of a function and of \<open>undefined\<close>.\<close>

definition ensureCtor :: "comp \<Rightarrow> nat \<Rightarrow> comp option" where
  "ensureCtor c base =
     (let c1 = (case c of Module d \<Rightarrow> d | _ \<Rightarrow> Some c) in
      case c1 of
        None \<Rightarrow> None
      | Some (Options k) \<Rightarrow> Some (Extend base (Options k))
      | Some (Module d) \<Rightarrow> Some (Extend base (Module d))
      | Some (Ctor k) \<Rightarrow> Some (Ctor k)
      | Some (Extend b x) \<Rightarrow> Some (Extend b x))"

text \<open>What the producer function does before it returns, and what it returns.\<close>

datatype callback = Complete comp | Fail "string option"

record descriptor =
  d_error :: "comp option"
  d_loading :: "comp option"
  d_delay :: "nat option"
  d_timeout :: "nat option"

datatype result =
    NotObject
  | Promise
  | Descriptor descriptor
  | OtherObject

datatype timer = LoadingTimer | TimeoutTimer

datatype revent =
    CallFactory
  | Then
  | SetTimeout timer nat
  | ForceUpdate nat
  | WarnFailed string

text \<open>
  The factory: the producer function (its source text, the callbacks it calls before
  it returns, its return value), the properties the resolver attaches to it, and the
  variables of the closures the first call creates (\<open>sync\<close>, the captured
  \<open>baseCtor\<close>, the \<open>called\<close> flag of each \<open>once\<close>). \<open>contexts\<close> is one array,
  shared by the property and the closures. \<open>error\<close> and \<open>loading\<close> are
  \<open>undefined\<close> or \<open>true\<close>.
\<close>

record factory =
  source :: string
  body :: "callback list"
  returns :: result
  error :: bool
  errorComp :: "comp option"
  resolved :: "comp option"
  loading :: bool
  loadingComp :: "comp option"
  contexts :: "nat list option"
  sync :: bool
  baseCtor :: nat
  resolve_called :: bool
  reject_called :: bool
  rtrace :: "revent list"

definition new_factory :: "string \<Rightarrow> callback list \<Rightarrow> result \<Rightarrow> factory" where
  "new_factory src cbs res =
     \<lparr>source = src, body = cbs, returns = res, error = False, errorComp = None,
      resolved = None, loading = False, loadingComp = None, contexts = None,
      sync = False, baseCtor = 0, resolve_called = False, reject_called = False,
      rtrace = []\<rparr>"

subsection \<open>The closures of the first call\<close>

definition forceRender :: "bool \<Rightarrow> factory \<Rightarrow> factory" where
  "forceRender renderCompleted f =
     (let cs = (case contexts f of None \<Rightarrow> [] | Some cs \<Rightarrow> cs);
          f1 = f\<lparr>rtrace := rtrace f @ map ForceUpdate cs\<rparr>
      in if renderCompleted then f1\<lparr>contexts := Some []\<rparr> else f1)"

text \<open>
  Modelled from the spec: \<open>once\<close> of core/util is not among the sources. The spec
  calls it a run-once guard: only the first invocation of the wrapped function has an
  effect. Each of \<open>resolve\<close> and \<open>reject\<close> has a guard (a \<open>called\<close> flag) of its own.
\<close>

definition once :: "(factory \<Rightarrow> bool) \<Rightarrow> (factory \<Rightarrow> factory) \<Rightarrow> (factory \<Rightarrow> factory) \<Rightarrow>
    factory \<Rightarrow> factory" where
  "once called set_called fn f = (if \<not> called f then fn (set_called f) else f)"

definition resolve :: "comp \<Rightarrow> factory \<Rightarrow> factory" where
  "resolve res =
     once resolve_called (\<lambda>f. f\<lparr>resolve_called := True\<rparr>)
       (\<lambda>f. let f1 = f\<lparr>resolved := ensureCtor res (baseCtor f)\<rparr> in
            if \<not> sync f1 then forceRender True f1 else f1\<lparr>contexts := Some []\<rparr>)"

definition failure_message :: "string \<Rightarrow> string option \<Rightarrow> string" where
  "failure_message src reason =
     ''Failed to resolve async component: '' @ src @
     (case reason of
        None \<Rightarrow> []
      | Some r \<Rightarrow> if r = [] then [] else [CHR 0x0A] @ ''Reason: '' @ r)"

definition reject :: "bool \<Rightarrow> string option \<Rightarrow> factory \<Rightarrow> factory" where
  "reject is_prod reason =
     once reject_called (\<lambda>f. f\<lparr>reject_called := True\<rparr>)
       (\<lambda>f. let f1 = (if \<not> is_prod
                      then f\<lparr>rtrace := rtrace f @ [WarnFailed (failure_message (source f) reason)]\<rparr>
                      else f)
            in if errorComp f1 \<noteq> None then forceRender True (f1\<lparr>error := True\<rparr>) else f1)"

subsection \<open>resolveAsyncComponent\<close>

text \<open>The producer's body: the callbacks it calls before it returns, in order.\<close>

definition call :: "bool \<Rightarrow> callback \<Rightarrow> factory \<Rightarrow> factory" where
  "call is_prod cb f =
     (case cb of Complete res \<Rightarrow> resolve res f | Fail reason \<Rightarrow> reject is_prod reason f)"

definition run_body :: "bool \<Rightarrow> callback list \<Rightarrow> factory \<Rightarrow> factory" where
  "run_body is_prod cbs f = foldl (\<lambda>g cb. call is_prod cb g) f cbs"

text \<open>
  \<open>res.then(resolve, reject)\<close> and \<open>res.component.then(resolve, reject)\<close>: the
  registration is recorded; the settlement is a later \<open>resolve\<close> or \<open>reject\<close>.
\<close>

definition chain :: "factory \<Rightarrow> factory" where
  "chain f = f\<lparr>rtrace := rtrace f @ [Then]\<rparr>"

text \<open>The block \<open>if (isObject(res)) { ... }\<close> after the producer has returned.\<close>

definition after_return :: "factory \<Rightarrow> factory" where
  "after_return f =
     (case returns f of
        NotObject \<Rightarrow> f
      | OtherObject \<Rightarrow> f
      | Promise \<Rightarrow> if resolved f = None then chain f else f
      | Descriptor d \<Rightarrow>
          (let f1 = chain f;
               f2 = (case d_error d of
                       None \<Rightarrow> f1
                     | Some x \<Rightarrow> f1\<lparr>errorComp := ensureCtor x (baseCtor f1)\<rparr>);
               f3 = (case d_loading d of
                       None \<Rightarrow> f2
                     | Some l \<Rightarrow>
                         (let g = f2\<lparr>loadingComp := ensureCtor l (baseCtor f2)\<rparr> in
                          if d_delay d = Some 0 then g\<lparr>loading := True\<rparr>
                          else g\<lparr>rtrace := rtrace g @
                                 [SetTimeout LoadingTimer
                                    (case d_delay d of
                                       None \<Rightarrow> 200
                                     | Some t \<Rightarrow> if t = 0 then 200 else t)]\<rparr>))
           in case d_timeout d of
                None \<Rightarrow> f3
              | Some t \<Rightarrow> f3\<lparr>rtrace := rtrace f3 @ [SetTimeout TimeoutTimer t]\<rparr>))"

definition resolveAsyncComponent ::
  "bool \<Rightarrow> nat \<Rightarrow> nat \<Rightarrow> factory \<Rightarrow> comp option \<times> factory" where
  "resolveAsyncComponent is_prod base context f =
     (if error f \<and> errorComp f \<noteq> None then (errorComp f, f)
      else if resolved f \<noteq> None then (resolved f, f)
      else if loading f \<and> loadingComp f \<noteq> None then (loadingComp f, f)
      else
        (case contexts f of
           Some cs \<Rightarrow> (None, f\<lparr>contexts := Some (cs @ [context])\<rparr>)
         | None \<Rightarrow>
            (let f1 = f\<lparr>contexts := Some [context], sync := True, baseCtor := base,
                        resolve_called := False, reject_called := False\<rparr>;
                 f2 = run_body is_prod (body f1) (f1\<lparr>rtrace := rtrace f1 @ [CallFactory]\<rparr>);
                 f3 = after_return f2;
                 f4 = f3\<lparr>sync := False\<rparr>
             in (if loading f4 then loadingComp f4 else resolved f4, f4))))"

subsection \<open>The timers\<close>

text \<open>
  \<open>res.timeout\<close> in the template literal of the timeout reason: the decimal digits
  of a whole number of milliseconds, which is what the literal prints of a number
  below \<open>10^21\<close> (from there on it prints the exponent form, which is not modelled).
\<close>

fun decimal :: "nat \<Rightarrow> string" where
  "decimal n =
     (if n < 10 then [char_of (48 + n)]
      else decimal (n div 10) @ [char_of (48 + n mod 10)])"

definition loading_timer :: "factory \<Rightarrow> factory" where
  "loading_timer f =
     (if resolved f = None \<and> \<not> error f then forceRender False (f\<lparr>loading := True\<rparr>) else f)"

definition timeout_timer :: "bool \<Rightarrow> nat \<Rightarrow> factory \<Rightarrow> factory" where
  "timeout_timer is_prod t f =
     (if resolved f = None
      then reject is_prod
             (if \<not> is_prod then Some (''timeout ('' @ decimal t @ ''ms)'') else None) f
      else f)"

subsection \<open>What can happen to a factory\<close>

text \<open>
  A request (\<open>resolveAsyncComponent\<close> with a base constructor and a consumer), a
  callback of the producer or of its promise, the loading timer, the timeout timer.
\<close>

datatype action =
    Request nat nat
  | Call callback
  | LoadingFires
  | TimeoutFires nat

definition step :: "bool \<Rightarrow> factory \<Rightarrow> action \<Rightarrow> factory" where
  "step is_prod f a =
     (case a of
        Request base context \<Rightarrow> snd (resolveAsyncComponent is_prod base context f)
      | Call cb \<Rightarrow> call is_prod cb f
      | LoadingFires \<Rightarrow> loading_timer f
      | TimeoutFires t \<Rightarrow> timeout_timer is_prod t f)"

definition steps :: "bool \<Rightarrow> factory \<Rightarrow> action list \<Rightarrow> factory" where
  "steps is_prod f as = foldl (step is_prod) f as"

section \<open>Scenarios\<close>

text \<open>
  A native array of numbers, to run the interceptor on: every operation maps the array
  and its arguments to the new array and what the operation returns (a number and an
  element are returned as a list of one).
\<close>

definition native_example ::
  "array_method \<Rightarrow> nat list \<Rightarrow> nat list \<Rightarrow> nat list \<times> nat list" where
  "native_example m arr args =
     (case m of
        Push \<Rightarrow> (arr @ args, [length (arr @ args)])
      | Pop \<Rightarrow> (butlast arr, if arr = [] then [] else [last arr])
      | Shift \<Rightarrow> (tl arr, take 1 arr)
      | Unshift \<Rightarrow> (args @ arr, [length (args @ arr)])
      | Splice \<Rightarrow>
          (case args of
             [] \<Rightarrow> (arr, [])
           | [start] \<Rightarrow> (take start arr, drop start arr)
           | start # count # new \<Rightarrow>
               (take start arr @ new @ drop (start + count) arr,
                take count (drop start arr)))
      | Sort \<Rightarrow> (sort arr, sort arr)
      | Reverse \<Rightarrow> (rev arr, rev arr))"

subsection \<open>Observations on a factory\<close>

text \<open>The pending consumers: the array \<open>contexts\<close>, empty while it is not there.\<close>

definition pending :: "factory \<Rightarrow> nat list" where
  "pending f = (case contexts f of None \<Rightarrow> [] | Some cs \<Rightarrow> cs)"

definition is_loading_timer :: "revent \<Rightarrow> bool" where
  "is_loading_timer ev = (case ev of SetTimeout LoadingTimer n \<Rightarrow> True | _ \<Rightarrow> False)"

text \<open>How often the producer function has been invoked.\<close>

definition factory_calls :: "factory \<Rightarrow> nat" where
  "factory_calls f = length (filter (\<lambda>ev. ev = CallFactory) (rtrace f))"

subsection \<open>Producers of the examples\<close>

text \<open>A producer that returns a promise, requested by consumer 7.\<close>

definition promise_pending :: factory where
  "promise_pending = snd (resolveAsyncComponent False 0 7 (new_factory ''load'' [] Promise))"

text \<open>A resource descriptor with an error substitute only.\<close>

definition with_error :: factory where
  "with_error = new_factory ''load'' []
     (Descriptor \<lparr>d_error = Some (Options 1), d_loading = None, d_delay = None,
        d_timeout = None\<rparr>)"

text \<open>Resource descriptors with a loading substitute: delay 0, delay 50, no delay.\<close>

definition loading_at_once :: factory where
  "loading_at_once = new_factory ''load'' []
     (Descriptor \<lparr>d_error = None, d_loading = Some (Options 2), d_delay = Some 0,
        d_timeout = None\<rparr>)"

definition loading_no_error :: factory where
  "loading_no_error = new_factory ''load'' []
     (Descriptor \<lparr>d_error = None, d_loading = Some (Options 2), d_delay = Some 50,
        d_timeout = None\<rparr>)"

text \<open>A resource descriptor with both substitutes, delay 50.\<close>

definition loading_with_error :: factory where
  "loading_with_error = new_factory ''load'' []
     (Descriptor \<lparr>d_error = Some (Options 1), d_loading = Some (Options 2), d_delay = Some 50,
        d_timeout = None\<rparr>)"

subsection \<open>Watchers of the examples\<close>

definition plain_watcher :: "nat \<Rightarrow> watcher" where
  "plain_watcher k = \<lparr>id_w = k, has_before = False, user = False, expression = [], vm = 0\<rparr>"

definition self_watcher :: watcher where
  "self_watcher = \<lparr>id_w = 1, has_before = False, user = True, expression = ''total'', vm = 0\<rparr>"

text \<open>Watchers that queue nothing when they run, in the asynchronous diagnostic build.\<close>

definition quiet_env :: env where
  "quiet_env = \<lparr>production = False, async = True, devtools_on = False,
     updatable = (\<lambda>w. False), run = (\<lambda>tr w. [])\<rparr>"

text \<open>The same watchers in the synchronous diagnostic configuration.\<close>

definition sync_env :: env where
  "sync_env = \<lparr>production = False, async = False, devtools_on = False,
     updatable = (\<lambda>w. False), run = (\<lambda>tr w. [])\<rparr>"

text \<open>The watcher 5 queues the watchers 2 and 8 when it runs.\<close>

definition mid_env :: env where
  "mid_env = \<lparr>production = False, async = True, devtools_on = False,
     updatable = (\<lambda>w. False),
     run = (\<lambda>tr w. if id_w w = 5 then [plain_watcher 2, plain_watcher 8] else [])\<rparr>"

text \<open>Every watcher queues itself when it runs; the build is a parameter.\<close>

definition loop_env :: "bool \<Rightarrow> env" where
  "loop_env is_prod = \<lparr>production = is_prod, async = True, devtools_on = False,
     updatable = (\<lambda>w. False), run = (\<lambda>tr w. [w])\<rparr>"

text \<open>
  The watcher 1 queues itself whenever it runs, the other watchers queue nothing; the
  asynchronous diagnostic build.
\<close>

definition guard_env :: env where
  "guard_env = \<lparr>production = False, async = True, devtools_on = False,
     updatable = (\<lambda>w. False), run = (\<lambda>tr w. if id_w w = 1 then [w] else [])\<rparr>"

text \<open>The state in which a tick finds the scheduler when \<open>ws\<close> were queued.\<close>

definition queued :: "watcher list \<Rightarrow> scheduler" where
  "queued ws = state_of (run_calls quiet_env 0 ws initial)"



section \<open>Properties of the array interceptor\<close>

text \<open>
  C8. Every intercepted operation calls the native operation first and returns its
  result as it is; \<open>observeArray\<close> receives all the arguments for \<open>push\<close> and
  \<open>unshift\<close>, the arguments from the third on for \<open>splice\<close>, and is not called for
  the other operations; the notifier is called once, last.
\<close>

theorem mutator_contract:
  "mutator original m args this =
     (snd (original m (items this) args),
      this\<lparr>items := fst (original m (items this) args),
           calls := calls this @ [Native m args]
             @ (if m = Push \<or> m = Unshift then [ObserveArray args]
                else if m = Splice then [ObserveArray (drop 2 args)]
                else [])
             @ [Notify]\<rparr>)"
  by (cases m) (simp_all add: mutator_def split_beta Let_def)

text \<open>
  The examples of the spec: appending \<open>[7, 8]\<close>; inserting \<open>[9]\<close> at index 1; a
  splice that only removes; and \<open>pop\<close>, which observes nothing.
\<close>

theorem mutator_contract_witness:
  "mutator native_example Push [7, 8] \<lparr>items = [1, 2, 3], calls = []\<rparr> =
     ([5], \<lparr>items = [1, 2, 3, 7, 8],
            calls = [Native Push [7, 8], ObserveArray [7, 8], Notify]\<rparr>)
   \<and> mutator native_example Splice [1, 0, 9] \<lparr>items = [1, 2, 3], calls = []\<rparr> =
     ([], \<lparr>items = [1, 9, 2, 3],
           calls = [Native Splice [1, 0, 9], ObserveArray [9], Notify]\<rparr>)
   \<and> mutator native_example Splice [1, 1] \<lparr>items = [1, 2, 3], calls = []\<rparr> =
     ([2], \<lparr>items = [1, 3],
            calls = [Native Splice [1, 1], ObserveArray [], Notify]\<rparr>)
   \<and> mutator native_example Pop [] \<lparr>items = [1, 2, 3], calls = []\<rparr> =
     ([3], \<lparr>items = [1, 2], calls = [Native Pop [], Notify]\<rparr>)"
  using mutator_contract [of native_example Push "[7, 8]" "\<lparr>items = [1, 2, 3], calls = []\<rparr>"]
    mutator_contract [of native_example Splice "[1, 0, 9]" "\<lparr>items = [1, 2, 3], calls = []\<rparr>"]
    mutator_contract [of native_example Splice "[1, 1]" "\<lparr>items = [1, 2, 3], calls = []\<rparr>"]
    mutator_contract [of native_example Pop "[]" "\<lparr>items = [1, 2, 3], calls = []\<rparr>"]
  by (simp add: native_example_def)

section \<open>Properties of the resolver\<close>

subsection \<open>The two callbacks\<close>

lemmas callback_defs = resolve_def reject_def once_def forceRender_def

lemmas timer_defs = loading_timer_def timeout_timer_def

lemmas eval_defs = steps_def step_def resolveAsyncComponent_def new_factory_def run_body_def
  after_return_def chain_def call_def callback_defs timer_defs Let_def ensureCtor_def

lemma resolve_again: "resolve r2 (resolve r1 f) = resolve r1 f"
  by (simp add: callback_defs Let_def)

lemma reject_again: "reject p x2 (reject p x1 f) = reject p x1 f"
  by (simp add: callback_defs Let_def)

lemma resolve_first:
  "\<not> resolve_called f \<Longrightarrow>
   resolve r f =
     (if sync f
      then f\<lparr>resolve_called := True, resolved := ensureCtor r (baseCtor f), contexts := Some []\<rparr>
      else f\<lparr>resolve_called := True, resolved := ensureCtor r (baseCtor f), contexts := Some [],
             rtrace := rtrace f @ map ForceUpdate (pending f)\<rparr>)"
  by (simp add: callback_defs Let_def pending_def)

lemma reject_first:
  "\<not> reject_called f \<Longrightarrow>
   reject p reason f =
     (if errorComp f = None
      then f\<lparr>reject_called := True,
             rtrace := rtrace f @
               (if p then [] else [WarnFailed (failure_message (source f) reason)])\<rparr>
      else f\<lparr>reject_called := True, error := True, contexts := Some [],
             rtrace := rtrace f @
               (if p then [] else [WarnFailed (failure_message (source f) reason)])
               @ map ForceUpdate (pending f)\<rparr>)"
  by (simp add: callback_defs Let_def pending_def)

text \<open>
  Once \<open>resolve\<close> has run, nothing that can happen to the factory touches
  \<open>resolved\<close>: a request returns early or appends a consumer, \<open>resolve\<close> is used up, and
  \<open>reject\<close> and the timers do not write it.
\<close>

lemma step_after_resolve:
  assumes "resolve_called f" "contexts f \<noteq> None"
  shows "resolve_called (step p f a) \<and> contexts (step p f a) \<noteq> None
       \<and> resolved (step p f a) = resolved f"
proof (cases a)
  case (Request b c)
  with assms show ?thesis
    by (auto simp: step_def resolveAsyncComponent_def)
next
  case (Call cb)
  with assms show ?thesis
    by (cases cb) (auto simp: step_def call_def callback_defs Let_def)
next
  case LoadingFires
  with assms show ?thesis
    by (auto simp: step_def timer_defs callback_defs Let_def)
next
  case (TimeoutFires t)
  with assms show ?thesis
    by (auto simp: step_def timer_defs callback_defs Let_def)
qed

lemma steps_after_resolve:
  "resolve_called f \<Longrightarrow> contexts f \<noteq> None \<Longrightarrow> resolved (steps p f as) = resolved f"
proof (induction as arbitrary: f)
  case Nil
  then show ?case by (simp add: steps_def)
next
  case (Cons a as)
  from step_after_resolve [OF Cons.prems, of p a]
  have "resolved (steps p (step p f a) as) = resolved (step p f a)"
    using Cons.IH by blast
  then show ?case
    using step_after_resolve [OF Cons.prems, of p a] by (simp add: steps_def)
qed

text \<open>
  C4, as the spec has it, ends: once either the resolved value or the error state is
  set, later callbacks of the producer have no effect. The guards are one per callback:
  after the completion of a descriptor with an error substitute, the first failure
  still sets the error state, and the next request gets the error substitute instead of
  the resolved unit.
\<close>

theorem late_failure_counterexample:
  "resolved (steps False with_error [Request 0 7, Call (Complete (Options 2))])
     = Some (Extend 0 (Options 2))
   \<and> \<not> error (steps False with_error [Request 0 7, Call (Complete (Options 2))])
   \<and> error (steps False with_error
       [Request 0 7, Call (Complete (Options 2)), Call (Fail (Some ''late''))])
   \<and> fst (resolveAsyncComponent False 0 8
       (steps False with_error [Request 0 7, Call (Complete (Options 2))]))
     = Some (Extend 0 (Options 2))
   \<and> fst (resolveAsyncComponent False 0 8
       (steps False with_error
         [Request 0 7, Call (Complete (Options 2)), Call (Fail (Some ''late''))]))
     = Some (Extend 0 (Options 1))"
  by (simp add: with_error_def eval_defs)

text \<open>
  C4, amended. The first completion stores its (normalised) result; a second
  completion changes nothing, and no later request, callback or timer changes the
  stored result; a second failure changes nothing either. The guards are independent:
  the first failure after a completion still sets the error state when there is an
  error substitute.
\<close>

theorem completion_write_once:
  assumes "\<not> resolve_called f"
  shows "resolved (resolve r1 f) = ensureCtor r1 (baseCtor f)
       \<and> resolve r2 (resolve r1 f) = resolve r1 f
       \<and> resolved (steps p (resolve r1 f) as) = ensureCtor r1 (baseCtor f)
       \<and> reject p x2 (reject p x1 f) = reject p x1 f
       \<and> (\<not> reject_called f \<and> errorComp f \<noteq> None \<longrightarrow> error (reject p x1 (resolve r1 f)))"
proof -
  have a: "resolved (resolve r1 f) = ensureCtor r1 (baseCtor f)"
    using assms by (simp add: resolve_first)
  have b: "resolve_called (resolve r1 f)" "contexts (resolve r1 f) \<noteq> None"
    using assms by (simp_all add: resolve_first)
  have c: "resolved (steps p (resolve r1 f) as) = ensureCtor r1 (baseCtor f)"
    using steps_after_resolve [OF b] a by simp
  have d: "\<not> reject_called f \<and> errorComp f \<noteq> None \<longrightarrow> error (reject p x1 (resolve r1 f))"
    using assms by (auto simp add: resolve_first reject_first)
  show ?thesis using a c d resolve_again reject_again by simp
qed

theorem completion_write_once_witness:
  "\<not> resolve_called (steps False with_error [Request 0 7])
   \<and> \<not> reject_called (steps False with_error [Request 0 7])
   \<and> errorComp (steps False with_error [Request 0 7]) \<noteq> None
   \<and> resolved (resolve (Options 2) (steps False with_error [Request 0 7]))
       = Some (Extend 0 (Options 2))
   \<and> resolve (Options 3) (resolve (Options 2) (steps False with_error [Request 0 7]))
       = resolve (Options 2) (steps False with_error [Request 0 7])
   \<and> resolved (steps False (resolve (Options 2) (steps False with_error [Request 0 7]))
        [Call (Complete (Options 3)), Request 0 8, TimeoutFires 100])
       = Some (Extend 0 (Options 2))
   \<and> error (reject False None (resolve (Options 2) (steps False with_error [Request 0 7])))"
proof -
  have h: "\<not> resolve_called (steps False with_error [Request 0 7])"
    "\<not> reject_called (steps False with_error [Request 0 7])"
    "errorComp (steps False with_error [Request 0 7]) \<noteq> None"
    "ensureCtor (Options 2) (baseCtor (steps False with_error [Request 0 7]))
       = Some (Extend 0 (Options 2))"
    by (simp_all add: with_error_def eval_defs)
  from completion_write_once [OF h(1), of "Options 2" "Options 3" False
      "[Call (Complete (Options 3)), Request 0 8, TimeoutFires 100]" None None]
  show ?thesis using h by simp
qed

text \<open>
  C2, as the spec has it: the failure callback moves the unit to Errored whether or not
  there is an error substitute. Without one, \<open>reject\<close> only warns: \<open>factory.error\<close>
  stays unset and the unit stays pending, so the next request is appended to the
  pending consumers and gets nothing, and a later completion still resolves the unit.
\<close>

theorem fail_without_substitute_counterexample:
  "\<not> resolve_called promise_pending \<and> \<not> reject_called promise_pending
   \<and> errorComp promise_pending = None
   \<and> \<not> error (reject False (Some ''boom'') promise_pending)
   \<and> rtrace (reject False (Some ''boom'') promise_pending)
       = [CallFactory, Then, WarnFailed (failure_message ''load'' (Some ''boom''))]
   \<and> fst (resolveAsyncComponent False 0 8 (reject False (Some ''boom'') promise_pending)) = None
   \<and> contexts (snd (resolveAsyncComponent False 0 8
        (reject False (Some ''boom'') promise_pending))) = Some [7, 8]
   \<and> resolved (resolve (Options 3) (reject False (Some ''boom'') promise_pending))
       = Some (Extend 0 (Options 3))"
  by (simp add: promise_pending_def eval_defs)

text \<open>
  C2, amended. The first call of the failure callback warns (in a build that is not the
  production build) and, only when an error substitute is there, sets the error state,
  asks every pending consumer to re-evaluate and empties the list. With no error
  substitute nothing but the warning happens: the unit does not become Errored.
\<close>

theorem fail_effect:
  assumes "\<not> reject_called f"
  shows "reject p reason f =
     (if errorComp f = None
      then f\<lparr>reject_called := True,
             rtrace := rtrace f @
               (if p then [] else [WarnFailed (failure_message (source f) reason)])\<rparr>
      else f\<lparr>reject_called := True, error := True, contexts := Some [],
             rtrace := rtrace f @
               (if p then [] else [WarnFailed (failure_message (source f) reason)])
               @ map ForceUpdate (pending f)\<rparr>)"
  using assms by (rule reject_first)

theorem fail_effect_witness:
  "\<not> reject_called promise_pending
   \<and> \<not> error (reject False None promise_pending)
   \<and> contexts (reject False None promise_pending) = Some [7]
   \<and> rtrace (reject False None promise_pending)
       = [CallFactory, Then, WarnFailed (failure_message ''load'' None)]
   \<and> \<not> reject_called (steps False with_error [Request 0 7, Request 0 8])
   \<and> error (reject False (Some ''boom'') (steps False with_error [Request 0 7, Request 0 8]))
   \<and> contexts (reject False (Some ''boom'') (steps False with_error [Request 0 7, Request 0 8]))
       = Some []
   \<and> rtrace (reject False (Some ''boom'') (steps False with_error [Request 0 7, Request 0 8]))
       = [CallFactory, Then, WarnFailed (failure_message ''load'' (Some ''boom'')),
          ForceUpdate 7, ForceUpdate 8]"
proof -
  have h: "\<not> reject_called (steps False with_error [Request 0 7, Request 0 8])"
    by (simp add: with_error_def eval_defs)
  have v: "errorComp (steps False with_error [Request 0 7, Request 0 8]) \<noteq> None"
    "pending (steps False with_error [Request 0 7, Request 0 8]) = [7, 8]"
    "rtrace (steps False with_error [Request 0 7, Request 0 8]) = [CallFactory, Then]"
    "source (steps False with_error [Request 0 7, Request 0 8]) = ''load''"
    by (simp_all add: with_error_def eval_defs pending_def)
  have k: "\<not> reject_called promise_pending" "errorComp promise_pending = None"
    "\<not> error promise_pending" "contexts promise_pending = Some [7]"
    "rtrace promise_pending = [CallFactory, Then]" "source promise_pending = ''load''"
    by (simp_all add: promise_pending_def eval_defs)
  show ?thesis
    using h v k fail_effect [OF h, of False "Some ''boom''"]
      fail_effect [OF k(1), of False None]
    by simp
qed

subsection \<open>What a callback and the producer's body leave alone\<close>

lemma call_frame:
  "loading (call p cb f) = loading f \<and> loadingComp (call p cb f) = loadingComp f
   \<and> returns (call p cb f) = returns f \<and> baseCtor (call p cb f) = baseCtor f
   \<and> filter is_loading_timer (rtrace (call p cb f)) = filter is_loading_timer (rtrace f)
   \<and> factory_calls (call p cb f) = factory_calls f
   \<and> (contexts f \<noteq> None \<longrightarrow> contexts (call p cb f) \<noteq> None)"
  by (cases cb) (auto simp: call_def callback_defs Let_def is_loading_timer_def factory_calls_def)

lemma run_body_frame:
  "loading (run_body p cbs f) = loading f \<and> loadingComp (run_body p cbs f) = loadingComp f
   \<and> returns (run_body p cbs f) = returns f \<and> baseCtor (run_body p cbs f) = baseCtor f
   \<and> filter is_loading_timer (rtrace (run_body p cbs f)) = filter is_loading_timer (rtrace f)
   \<and> factory_calls (run_body p cbs f) = factory_calls f
   \<and> (contexts f \<noteq> None \<longrightarrow> contexts (run_body p cbs f) \<noteq> None)"
proof (induction cbs arbitrary: f)
  case Nil
  then show ?case by (simp add: run_body_def)
next
  case (Cons cb cbs)
  have "run_body p (cb # cbs) f = run_body p cbs (call p cb f)"
    by (simp add: run_body_def)
  then show ?case
    using Cons.IH [of "call p cb f"] call_frame [of p cb f] by simp
qed

lemma after_return_frame:
  "factory_calls (after_return f) = factory_calls f \<and> contexts (after_return f) = contexts f"
  by (auto simp: after_return_def chain_def factory_calls_def Let_def
      split: result.splits option.splits)

subsection \<open>The loading substitute\<close>

lemma first_call_loading:
  assumes "d_loading d = Some l"
  shows "loading (snd (resolveAsyncComponent p base c (new_factory src cbs (Descriptor d))))
         = (d_delay d = Some 0)"
    and "loadingComp (snd (resolveAsyncComponent p base c (new_factory src cbs (Descriptor d))))
         = ensureCtor l base"
    and "filter is_loading_timer
           (rtrace (snd (resolveAsyncComponent p base c (new_factory src cbs (Descriptor d)))))
         = (if d_delay d = Some 0 then []
            else [SetTimeout LoadingTimer (case d_delay d of None \<Rightarrow> 200 | Some t \<Rightarrow> t)])"
proof -
  let ?f1 = "(new_factory src cbs (Descriptor d))\<lparr>contexts := Some [c], sync := True,
               baseCtor := base, resolve_called := False, reject_called := False\<rparr>"
  let ?f2 = "run_body p cbs (?f1\<lparr>rtrace := rtrace ?f1 @ [CallFactory]\<rparr>)"
  have r: "snd (resolveAsyncComponent p base c (new_factory src cbs (Descriptor d)))
           = (after_return ?f2)\<lparr>sync := False\<rparr>"
    by (simp add: resolveAsyncComponent_def new_factory_def Let_def)
  have fr: "loading ?f2 = False" "returns ?f2 = Descriptor d" "baseCtor ?f2 = base"
    "filter is_loading_timer (rtrace ?f2) = []"
    using run_body_frame [of p cbs "?f1\<lparr>rtrace := rtrace ?f1 @ [CallFactory]\<rparr>"]
    by (simp_all add: new_factory_def is_loading_timer_def)
  show "loading (snd (resolveAsyncComponent p base c (new_factory src cbs (Descriptor d))))
         = (d_delay d = Some 0)"
    unfolding r using assms fr
    by (auto simp: after_return_def chain_def Let_def split: option.splits)
  show "loadingComp (snd (resolveAsyncComponent p base c (new_factory src cbs (Descriptor d))))
         = ensureCtor l base"
    unfolding r using assms fr
    by (auto simp: after_return_def chain_def Let_def split: option.splits)
  show "filter is_loading_timer
           (rtrace (snd (resolveAsyncComponent p base c (new_factory src cbs (Descriptor d)))))
         = (if d_delay d = Some 0 then []
            else [SetTimeout LoadingTimer (case d_delay d of None \<Rightarrow> 200 | Some t \<Rightarrow> t)])"
    unfolding r using assms fr
    by (auto simp: after_return_def chain_def Let_def is_loading_timer_def split: option.splits)
qed

lemma first_call_returns:
  "fst (resolveAsyncComponent p base c (new_factory src cbs res)) =
     (let f = snd (resolveAsyncComponent p base c (new_factory src cbs res))
      in if loading f then loadingComp f else resolved f)"
  by (simp add: resolveAsyncComponent_def new_factory_def Let_def)

lemma loading_timer_effect:
  "loading_timer g =
     (if resolved g = None \<and> \<not> error g
      then g\<lparr>loading := True, rtrace := rtrace g @ map ForceUpdate (pending g)\<rparr> else g)"
  by (simp add: loading_timer_def forceRender_def pending_def)

lemma step_resolved_keeps_loading:
  assumes "resolved f \<noteq> None" "resolve_called f" "\<not> loading f"
  shows "resolved (step p f a) \<noteq> None \<and> resolve_called (step p f a) \<and> \<not> loading (step p f a)"
proof (cases a)
  case (Request b c)
  with assms show ?thesis
    by (auto simp: step_def resolveAsyncComponent_def)
next
  case (Call cb)
  with assms show ?thesis
    by (cases cb) (auto simp: step_def call_def callback_defs Let_def)
next
  case LoadingFires
  with assms show ?thesis
    by (auto simp: step_def timer_defs callback_defs Let_def)
next
  case (TimeoutFires t)
  with assms show ?thesis
    by (auto simp: step_def timer_defs callback_defs Let_def)
qed

lemma steps_resolved_keeps_loading:
  "resolved f \<noteq> None \<Longrightarrow> resolve_called f \<Longrightarrow> \<not> loading f \<Longrightarrow> \<not> loading (steps p f as)"
proof (induction as arbitrary: f)
  case Nil
  then show ?case by (simp add: steps_def)
next
  case (Cons a as)
  have "steps p f (a # as) = steps p (step p f a) as"
    by (simp add: steps_def)
  then show ?case
    using Cons.IH [of "step p f a"] step_resolved_keeps_loading [OF Cons.prems, of p a] by simp
qed

text \<open>
  C9. The first request of a producer that returns a resource descriptor with a
  loading substitute \<open>l\<close>: with delay 0 the Loading flag is set during the call, the
  call returns the loading substitute and no loading timer is started; otherwise the
  flag stays unset and exactly one loading timer is started, of the delay, or of 200
  when the delay is unset. When it fires, the timer sets the flag and asks every
  pending consumer to re-evaluate if the unit is neither resolved nor errored, and does
  nothing otherwise. So after a completion that stored a unit, whatever happens next
  (the timer included), the flag stays unset.
\<close>

theorem loading_threshold:
  assumes "d_loading d = Some l"
  shows
    "(d_delay d = Some 0 \<longrightarrow>
        loading (snd (resolveAsyncComponent p base c (new_factory src cbs (Descriptor d))))
      \<and> fst (resolveAsyncComponent p base c (new_factory src cbs (Descriptor d)))
          = ensureCtor l base
      \<and> filter is_loading_timer
          (rtrace (snd (resolveAsyncComponent p base c (new_factory src cbs (Descriptor d)))))
          = [])
   \<and> (d_delay d \<noteq> Some 0 \<longrightarrow>
        \<not> loading (snd (resolveAsyncComponent p base c (new_factory src cbs (Descriptor d))))
      \<and> filter is_loading_timer
          (rtrace (snd (resolveAsyncComponent p base c (new_factory src cbs (Descriptor d)))))
        = [SetTimeout LoadingTimer (case d_delay d of None \<Rightarrow> 200 | Some t \<Rightarrow> t)])
   \<and> (resolved g = None \<and> \<not> error g \<longrightarrow>
        loading_timer g = g\<lparr>loading := True, rtrace := rtrace g @ map ForceUpdate (pending g)\<rparr>)
   \<and> (resolved g \<noteq> None \<or> error g \<longrightarrow> loading_timer g = g)
   \<and> (\<not> loading g \<and> \<not> resolve_called g \<and> ensureCtor r (baseCtor g) \<noteq> None \<longrightarrow>
        \<not> loading (steps p (resolve r g) as))"
proof -
  have e: "\<not> loading g \<and> \<not> resolve_called g \<and> ensureCtor r (baseCtor g) \<noteq> None \<longrightarrow>
        \<not> loading (steps p (resolve r g) as)"
  proof
    assume h: "\<not> loading g \<and> \<not> resolve_called g \<and> ensureCtor r (baseCtor g) \<noteq> None"
    then have "resolved (resolve r g) \<noteq> None" "resolve_called (resolve r g)"
      "\<not> loading (resolve r g)"
      by (simp_all add: resolve_first)
    then show "\<not> loading (steps p (resolve r g) as)"
      by (rule steps_resolved_keeps_loading)
  qed
  show ?thesis
    using first_call_loading [OF assms, of p base c src cbs] e
    by (auto simp: first_call_returns loading_timer_effect Let_def)
qed

text \<open>
  The examples of the spec: delay 0; delay 50 with the timer firing while the unit is
  pending, and with a completion before the timer; and no delay given.
\<close>

theorem loading_threshold_witness:
  "loading (snd (resolveAsyncComponent False 0 7 loading_at_once))
   \<and> fst (resolveAsyncComponent False 0 7 loading_at_once) = Some (Extend 0 (Options 2))
   \<and> \<not> loading (snd (resolveAsyncComponent False 0 7 loading_no_error))
   \<and> filter is_loading_timer (rtrace (snd (resolveAsyncComponent False 0 7 loading_no_error)))
       = [SetTimeout LoadingTimer 50]
   \<and> loading (loading_timer (snd (resolveAsyncComponent False 0 7 loading_no_error)))
   \<and> rtrace (loading_timer (snd (resolveAsyncComponent False 0 7 loading_no_error)))
       = [CallFactory, Then, SetTimeout LoadingTimer 50, ForceUpdate 7]
   \<and> loading_timer (resolve (Options 1) (snd (resolveAsyncComponent False 0 7 loading_no_error)))
       = resolve (Options 1) (snd (resolveAsyncComponent False 0 7 loading_no_error))
   \<and> \<not> loading (steps False
         (resolve (Options 1) (snd (resolveAsyncComponent False 0 7 loading_no_error)))
         [LoadingFires, Request 0 8])
   \<and> filter is_loading_timer
        (rtrace (snd (resolveAsyncComponent False 0 7 (new_factory ''load'' []
           (Descriptor \<lparr>d_error = None, d_loading = Some (Options 2), d_delay = None,
              d_timeout = None\<rparr>)))))
       = [SetTimeout LoadingTimer 200]"
proof -
  let ?d0 = "\<lparr>d_error = None, d_loading = Some (Options 2), d_delay = Some 0,
               d_timeout = None\<rparr>"
  let ?d50 = "\<lparr>d_error = None, d_loading = Some (Options 2), d_delay = Some 50,
               d_timeout = None\<rparr>"
  let ?dn = "\<lparr>d_error = None, d_loading = Some (Options 2), d_delay = None,
               d_timeout = None\<rparr>"
  let ?g = "snd (resolveAsyncComponent False 0 7 loading_no_error)"
  have g: "resolved ?g = None" "\<not> error ?g" "\<not> loading ?g" "\<not> resolve_called ?g"
    "ensureCtor (Options 1) (baseCtor ?g) \<noteq> None" "pending ?g = [7]"
    "rtrace ?g = [CallFactory, Then, SetTimeout LoadingTimer 50]"
    by (simp_all add: loading_no_error_def eval_defs pending_def)
  have a: "d_loading ?d0 = Some (Options 2)" "d_loading ?d50 = Some (Options 2)"
    "d_loading ?dn = Some (Options 2)"
    by simp_all
  have g': "resolved (resolve (Options 1) ?g) \<noteq> None"
    by (simp add: loading_no_error_def eval_defs)
  from loading_threshold [OF a(1), of False 0 7 "''load''" "[]" "resolve (Options 1) ?g"
      "Options 1" "[]"]
  have t: "loading_timer (resolve (Options 1) ?g) = resolve (Options 1) ?g"
    using g' by blast
  from loading_threshold [OF a(1), of False 0 7 "''load''" "[]" ?g "Options 1" "[]"]
    loading_threshold [OF a(2), of False 0 7 "''load''" "[]" ?g "Options 1"
      "[LoadingFires, Request 0 8]"]
    loading_threshold [OF a(3), of False 0 7 "''load''" "[]" ?g "Options 1" "[]"]
  show ?thesis
    using g t by (simp add: loading_at_once_def loading_no_error_def ensureCtor_def)
qed

subsection \<open>The pending consumers\<close>

lemma loading_timer_frame:
  "contexts (loading_timer g) = contexts g \<and> sync (loading_timer g) = sync g
   \<and> resolve_called (loading_timer g) = resolve_called g
   \<and> reject_called (loading_timer g) = reject_called g
   \<and> errorComp (loading_timer g) = errorComp g \<and> source (loading_timer g) = source g"
  by (simp add: loading_timer_effect)

lemma step_contexts:
  assumes "contexts g = Some cs"
  shows "contexts (step p g a) = Some cs
       \<or> (\<exists>b c. a = Request b c \<and> contexts (step p g a) = Some (cs @ [c]))
       \<or> (contexts (step p g a) = Some []
          \<and> ((\<exists>r. a = Call (Complete r))
             \<or> (errorComp g \<noteq> None \<and> ((\<exists>x. a = Call (Fail x)) \<or> (\<exists>t. a = TimeoutFires t)))))"
proof (cases a)
  case (Request b c)
  with assms show ?thesis
    by (auto simp: step_def resolveAsyncComponent_def)
next
  case (Call cb)
  with assms show ?thesis
    by (cases cb) (auto simp: step_def call_def callback_defs Let_def)
next
  case LoadingFires
  with assms show ?thesis
    by (auto simp: step_def timer_defs callback_defs Let_def)
next
  case (TimeoutFires t)
  with assms show ?thesis
    by (auto simp: step_def timer_defs callback_defs Let_def)
qed

text \<open>
  C10, as the spec has it, says that a consumer registered before the loading timer
  fired is asked again to re-evaluate when the producer later completes or fails, and
  that only asynchronous completion and failure with an error substitute empty the
  list. A failure with no error substitute asks nobody (the trace gains the warning
  only, consumer 7 stays in the list), and a completion during the producer's call
  empties the list too.
\<close>

theorem loading_then_failure_counterexample:
  "contexts (steps False loading_no_error [Request 0 7, LoadingFires]) = Some [7]
   \<and> rtrace (steps False loading_no_error [Request 0 7, LoadingFires])
       = [CallFactory, Then, SetTimeout LoadingTimer 50, ForceUpdate 7]
   \<and> rtrace (steps False loading_no_error
        [Request 0 7, LoadingFires, Call (Fail (Some ''boom''))])
       = [CallFactory, Then, SetTimeout LoadingTimer 50, ForceUpdate 7,
          WarnFailed (failure_message ''load'' (Some ''boom''))]
   \<and> contexts (steps False loading_no_error
        [Request 0 7, LoadingFires, Call (Fail (Some ''boom''))]) = Some [7]
   \<and> contexts (steps False (new_factory ''now'' [Complete (Options 1)] NotObject)
        [Request 0 7]) = Some []
   \<and> rtrace (steps False (new_factory ''now'' [Complete (Options 1)] NotObject)
        [Request 0 7]) = [CallFactory]"
  by (simp add: loading_no_error_def eval_defs)

text \<open>
  C10, amended. The loading timer leaves the list of pending consumers as it is. So
  the consumers \<open>cs\<close> registered before it fired are each asked once more to
  re-evaluate by a later asynchronous completion, and by a later failure when there is
  an error substitute; a failure with no error substitute asks nobody and leaves the
  list. Whatever happens to a requested factory, the list stays, grows by the
  requesting consumer, or is emptied; it is emptied only by a completion (during the
  producer's call or later) and, when there is an error substitute, by a failure or the
  timeout.
\<close>

theorem loading_timer_keeps_consumers:
  "contexts (loading_timer g) = contexts g
   \<and> (contexts g = Some cs \<and> \<not> sync g \<and> \<not> resolve_called g \<longrightarrow>
        rtrace (resolve r (loading_timer g))
          = rtrace (loading_timer g) @ map ForceUpdate cs
        \<and> contexts (resolve r (loading_timer g)) = Some [])
   \<and> (contexts g = Some cs \<and> \<not> reject_called g \<and> errorComp g \<noteq> None \<longrightarrow>
        rtrace (reject p x (loading_timer g))
          = rtrace (loading_timer g)
            @ (if p then [] else [WarnFailed (failure_message (source g) x)])
            @ map ForceUpdate cs
        \<and> contexts (reject p x (loading_timer g)) = Some [])
   \<and> (contexts g = Some cs \<and> \<not> reject_called g \<and> errorComp g = None \<longrightarrow>
        rtrace (reject p x (loading_timer g))
          = rtrace (loading_timer g)
            @ (if p then [] else [WarnFailed (failure_message (source g) x)])
        \<and> contexts (reject p x (loading_timer g)) = Some cs)
   \<and> (contexts g = Some cs \<longrightarrow>
        contexts (step p g a) = Some cs
        \<or> (\<exists>b c. a = Request b c \<and> contexts (step p g a) = Some (cs @ [c]))
        \<or> (contexts (step p g a) = Some []
           \<and> ((\<exists>r. a = Call (Complete r))
              \<or> (errorComp g \<noteq> None
                 \<and> ((\<exists>x. a = Call (Fail x)) \<or> (\<exists>t. a = TimeoutFires t))))))"
proof -
  have a: "contexts g = Some cs \<and> \<not> sync g \<and> \<not> resolve_called g \<longrightarrow>
        rtrace (resolve r (loading_timer g))
          = rtrace (loading_timer g) @ map ForceUpdate cs
        \<and> contexts (resolve r (loading_timer g)) = Some []"
    using loading_timer_frame [of g] by (simp add: resolve_first pending_def)
  have b: "contexts g = Some cs \<and> \<not> reject_called g \<and> errorComp g \<noteq> None \<longrightarrow>
        rtrace (reject p x (loading_timer g))
          = rtrace (loading_timer g)
            @ (if p then [] else [WarnFailed (failure_message (source g) x)])
            @ map ForceUpdate cs
        \<and> contexts (reject p x (loading_timer g)) = Some []"
    using loading_timer_frame [of g] by (simp add: reject_first pending_def)
  have c: "contexts g = Some cs \<and> \<not> reject_called g \<and> errorComp g = None \<longrightarrow>
        rtrace (reject p x (loading_timer g))
          = rtrace (loading_timer g)
            @ (if p then [] else [WarnFailed (failure_message (source g) x)])
        \<and> contexts (reject p x (loading_timer g)) = Some cs"
    using loading_timer_frame [of g] by (simp add: reject_first pending_def)
  show ?thesis
    using a b c step_contexts [of g cs p a] loading_timer_frame [of g] by blast
qed

theorem loading_timer_keeps_consumers_witness:
  "contexts (loading_timer (steps False loading_with_error [Request 0 7, Request 0 8]))
     = Some [7, 8]
   \<and> rtrace (resolve (Options 3)
        (loading_timer (steps False loading_with_error [Request 0 7, Request 0 8])))
     = [CallFactory, Then, SetTimeout LoadingTimer 50, ForceUpdate 7, ForceUpdate 8,
        ForceUpdate 7, ForceUpdate 8]
   \<and> rtrace (reject False None
        (loading_timer (steps False loading_with_error [Request 0 7, Request 0 8])))
     = [CallFactory, Then, SetTimeout LoadingTimer 50, ForceUpdate 7, ForceUpdate 8,
        WarnFailed (failure_message ''load'' None), ForceUpdate 7, ForceUpdate 8]
   \<and> rtrace (reject False None
        (loading_timer (steps False loading_no_error [Request 0 7, Request 0 8])))
     = [CallFactory, Then, SetTimeout LoadingTimer 50, ForceUpdate 7, ForceUpdate 8,
        WarnFailed (failure_message ''load'' None)]
   \<and> contexts (reject False None
        (loading_timer (steps False loading_no_error [Request 0 7, Request 0 8])))
     = Some [7, 8]
   \<and> contexts (step False (steps False loading_with_error [Request 0 7, Request 0 8])
        (Request 0 9)) = Some [7, 8, 9]"
proof -
  let ?g = "steps False loading_with_error [Request 0 7, Request 0 8]"
  let ?h = "steps False loading_no_error [Request 0 7, Request 0 8]"
  have g: "contexts ?g = Some [7, 8]" "\<not> sync ?g" "\<not> resolve_called ?g" "\<not> reject_called ?g"
    "errorComp ?g \<noteq> None" "source ?g = ''load''"
    "rtrace (loading_timer ?g)
       = [CallFactory, Then, SetTimeout LoadingTimer 50, ForceUpdate 7, ForceUpdate 8]"
    "contexts (step False ?g (Request 0 9)) = Some [7, 8, 9]"
    by (simp_all add: loading_with_error_def eval_defs)
  have h: "contexts ?h = Some [7, 8]" "\<not> reject_called ?h" "errorComp ?h = None"
    "source ?h = ''load''"
    "rtrace (loading_timer ?h)
       = [CallFactory, Then, SetTimeout LoadingTimer 50, ForceUpdate 7, ForceUpdate 8]"
    by (simp_all add: loading_no_error_def eval_defs)
  from loading_timer_keeps_consumers [of ?g "[7, 8]" "Options 3" False None "Request 0 9"]
    loading_timer_keeps_consumers [of ?h "[7, 8]" "Options 3" False None "Request 0 9"]
  show ?thesis
    using g h by simp
qed

subsection \<open>One invocation of the producer\<close>

lemma step_factory_calls:
  assumes "factory_calls f \<le> 1" "contexts f = None \<longrightarrow> factory_calls f = 0"
  shows "factory_calls (step p f a) \<le> 1
       \<and> (contexts (step p f a) = None \<longrightarrow> factory_calls (step p f a) = 0)"
proof (cases a)
  case (Request b c)
  show ?thesis
  proof (cases "contexts f")
    case None
    let ?f1 = "f\<lparr>contexts := Some [c], sync := True, baseCtor := b,
                 resolve_called := False, reject_called := False\<rparr>"
    let ?f2 = "run_body p (body ?f1) (?f1\<lparr>rtrace := rtrace ?f1 @ [CallFactory]\<rparr>)"
    have "factory_calls ?f2 = 1" "contexts ?f2 \<noteq> None"
      using run_body_frame [of p "body ?f1" "?f1\<lparr>rtrace := rtrace ?f1 @ [CallFactory]\<rparr>"]
        assms None
      by (simp_all add: factory_calls_def)
    then have "factory_calls ((after_return ?f2)\<lparr>sync := False\<rparr>) = 1"
      "contexts ((after_return ?f2)\<lparr>sync := False\<rparr>) \<noteq> None"
      using after_return_frame [of ?f2] by (simp_all add: factory_calls_def)
    then show ?thesis
      using Request None assms
      by (auto simp: step_def resolveAsyncComponent_def Let_def)
  next
    case (Some cs)
    then show ?thesis
      using Request assms
      by (auto simp: step_def resolveAsyncComponent_def factory_calls_def)
  qed
next
  case (Call cb)
  then show ?thesis
    using assms call_frame [of p cb f] by (auto simp: step_def)
next
  case LoadingFires
  then show ?thesis
    using assms by (auto simp: step_def timer_defs forceRender_def factory_calls_def)
next
  case (TimeoutFires t)
  then show ?thesis
    using assms by (auto simp: step_def timer_defs callback_defs factory_calls_def Let_def)
qed

lemma steps_factory_calls:
  "factory_calls f \<le> 1 \<Longrightarrow> (contexts f = None \<longrightarrow> factory_calls f = 0)
   \<Longrightarrow> factory_calls (steps p f as) \<le> 1"
proof (induction as arbitrary: f)
  case Nil
  then show ?case by (simp add: steps_def)
next
  case (Cons a as)
  have "steps p f (a # as) = steps p (step p f a) as"
    by (simp add: steps_def)
  then show ?case
    using Cons.IH [of "step p f a"] step_factory_calls [OF Cons.prems, of p a] by simp
qed

lemma request_while_pending:
  assumes "contexts g = Some cs" "resolved g = None" "\<not> (error g \<and> errorComp g \<noteq> None)"
    "\<not> (loading g \<and> loadingComp g \<noteq> None)"
  shows "resolveAsyncComponent p b c g = (None, g\<lparr>contexts := Some (cs @ [c])\<rparr>)"
  using assms by (auto simp: resolveAsyncComponent_def)

text \<open>
  C3, as the spec has it, says of every unresolved producer that a second request
  appends its consumer to the pending consumers. While the loading substitute is shown
  (here from the first call on, the delay being 0) the request returns the substitute
  before it gets there: consumer 8 is never registered, and the completion asks
  consumer 7 alone to re-evaluate.
\<close>

theorem second_consumer_counterexample:
  "resolved (steps False loading_at_once [Request 0 7]) = None
   \<and> contexts (steps False loading_at_once [Request 0 7]) = Some [7]
   \<and> fst (resolveAsyncComponent False 0 8 (steps False loading_at_once [Request 0 7]))
       = Some (Extend 0 (Options 2))
   \<and> contexts (steps False loading_at_once [Request 0 7, Request 0 8]) = Some [7]
   \<and> rtrace (steps False loading_at_once
        [Request 0 7, Request 0 8, Call (Complete (Options 1))])
       = [CallFactory, Then, ForceUpdate 7]"
  by (simp add: loading_at_once_def eval_defs)

text \<open>
  C3, amended. Whatever happens to a factory, its producer function is invoked at most
  once. A request for a factory that is pending, unresolved and shows neither the error
  substitute nor the loading substitute returns nothing, invokes nothing and appends
  its consumer to the pending consumers. An asynchronous completion asks every consumer
  of the list once to re-evaluate and empties the list.
\<close>

theorem single_invocation:
  "factory_calls (steps p (new_factory src cbs res) as) \<le> 1
   \<and> (contexts g = Some cs \<and> resolved g = None \<and> \<not> (error g \<and> errorComp g \<noteq> None)
        \<and> \<not> (loading g \<and> loadingComp g \<noteq> None) \<longrightarrow>
       resolveAsyncComponent p b c g = (None, g\<lparr>contexts := Some (cs @ [c])\<rparr>))
   \<and> (contexts g = Some cs \<and> \<not> sync g \<and> \<not> resolve_called g \<longrightarrow>
       rtrace (resolve r g) = rtrace g @ map ForceUpdate cs \<and> contexts (resolve r g) = Some [])"
proof -
  have "factory_calls (new_factory src cbs res) = 0"
    by (simp add: factory_calls_def new_factory_def)
  then have a: "factory_calls (steps p (new_factory src cbs res) as) \<le> 1"
    by (intro steps_factory_calls) simp_all
  show ?thesis
    using a request_while_pending [of g cs p b c]
    by (auto simp: resolve_first pending_def)
qed

text \<open>
  The example of the spec: two requests by the consumers 7 and 8, then the promise
  resolves. One invocation, both consumers pending, one request to each.
\<close>

theorem single_invocation_witness:
  "factory_calls (steps False (new_factory ''load'' [] Promise)
      [Request 0 7, Request 0 8, Call (Complete (Options 1)), Request 0 9]) \<le> 1
   \<and> promise_pending = steps False (new_factory ''load'' [] Promise) [Request 0 7]
   \<and> rtrace promise_pending = [CallFactory, Then]
   \<and> resolveAsyncComponent False 0 8 promise_pending
       = (None, promise_pending\<lparr>contexts := Some [7, 8]\<rparr>)
   \<and> rtrace (resolve (Options 1) (promise_pending\<lparr>contexts := Some [7, 8]\<rparr>))
       = [CallFactory, Then, ForceUpdate 7, ForceUpdate 8]
   \<and> contexts (resolve (Options 1) (promise_pending\<lparr>contexts := Some [7, 8]\<rparr>)) = Some []"
proof -
  let ?g = "promise_pending\<lparr>contexts := Some [7, 8]\<rparr>"
  have g: "contexts promise_pending = Some [7]" "resolved promise_pending = None"
    "\<not> error promise_pending" "\<not> loading promise_pending"
    "\<not> sync promise_pending" "\<not> resolve_called promise_pending"
    "rtrace promise_pending = [CallFactory, Then]"
    "promise_pending = steps False (new_factory ''load'' [] Promise) [Request 0 7]"
    by (simp_all add: promise_pending_def eval_defs)
  from single_invocation [of False "''load''" "[]" Promise
      "[Request 0 7, Request 0 8, Call (Complete (Options 1)), Request 0 9]"
      promise_pending "[7]" 0 8 "Options 1"]
    single_invocation [of False "''load''" "[]" Promise "[]" ?g "[7, 8]" 0 8 "Options 1"]
  show ?thesis
    using g by simp
qed

section \<open>Properties of the scheduler\<close>

subsection \<open>Reading the trace\<close>

lemma runs_append [simp]: "runs (xs @ ys) = runs xs @ runs ys"
  by (simp add: runs_def)

lemma runs_simps [simp]:
  "runs [] = []" "runs (Run w # tr) = w # runs tr" "runs (Before w # tr) = runs tr"
  "runs (Warn m v # tr) = runs tr" "runs (NextTick # tr) = runs tr"
  "runs (Activated v # tr) = runs tr" "runs (Updated w # tr) = runs tr"
  "runs (DevtoolsFlush # tr) = runs tr"
  by (simp_all add: runs_def)

lemma runs_visit [simp]: "runs (visit w) = [w]"
  by (simp add: visit_def)

lemma runs_map_visit [simp]: "runs (concat (map visit ws)) = ws"
  by (induction ws) simp_all

lemma runs_replicate_visit [simp]: "runs (concat (replicate k (visit w))) = replicate k w"
  by (induction k) simp_all

lemma runs_hooks [simp]: "runs (map Activated vs) = []" "runs (map Updated ws) = []"
  by (induction vs, simp_all) (induction ws, simp_all)

lemma run_count_append [simp]: "run_count i (xs @ ys) = run_count i xs + run_count i ys"
  by (simp add: run_count_def)

lemma run_count_visit [simp]: "run_count i (visit w) = (if id_w w = i then 1 else 0)"
  by (simp add: run_count_def)

lemma run_count_other [simp]:
  "run_count i [Warn m v] = 0" "run_count i (map Activated vs) = 0"
  "run_count i (map Updated ws) = 0" "run_count i [DevtoolsFlush] = 0" "run_count i [] = 0"
  by (simp_all add: run_count_def)

lemma warnings_append [simp]: "warnings (xs @ ys) = warnings xs + warnings ys"
  by (simp add: warnings_def)

lemma warnings_simps [simp]:
  "warnings [] = 0" "warnings (visit w) = 0" "warnings [Warn m v] = 1"
  "warnings (map Activated vs) = 0" "warnings (map Updated ws) = 0"
  "warnings [DevtoolsFlush] = 0"
  by (simp_all add: warnings_def visit_def)

lemma state_of_simps [simp]: "state_of (Inl s) = s" "state_of (Inr s) = s"
  by (simp_all add: state_of_def)

lemma after_loop_run_count [simp]: "run_count i (trace (after_loop e s)) = run_count i (trace s)"
  by (simp add: after_loop_def resetSchedulerState_def Let_def)

subsection \<open>queueWatcher\<close>

lemma enqueue_frame [simp]:
  "waiting (enqueue w s) = waiting s" "flushing (enqueue w s) = flushing s"
  "index (enqueue w s) = index s" "trace (enqueue w s) = trace s"
  "circular (enqueue w s) = circular s" "activatedChildren (enqueue w s) = activatedChildren s"
  "has (enqueue w s) = (has s)(id_w w \<mapsto> HTrue)"
  by (simp_all add: enqueue_def Let_def)

lemma enqueue_idle [simp]: "\<not> flushing s \<Longrightarrow> queue (enqueue w s) = queue s @ [w]"
  by (simp add: enqueue_def)

lemma enqueue_flushing:
  "flushing s \<Longrightarrow>
   queue (enqueue w s) =
     take (scan (queue s) (index s) (id_w w) (length (queue s))) (queue s) @ [w]
     @ drop (scan (queue s) (index s) (id_w w) (length (queue s))) (queue s)"
  by (simp add: enqueue_def Let_def)


lemma queueWatcher_present: "has s (id_w w) = Some HTrue \<Longrightarrow> queueWatcher e n w s = Inr s"
  by (simp add: queueWatcher.simps)

lemma queueWatcher_waiting: "waiting s \<Longrightarrow> queueWatcher e n w s = Inr (requeue w s)"
  by (simp add: queueWatcher.simps requeue_def Let_def)

lemma queueWatcher_deferred:
  assumes "production e \<or> async e"
  shows "queueWatcher e n w s =
     Inr (if has s (id_w w) = Some HTrue then s
          else if waiting s then enqueue w s
          else (enqueue w s)\<lparr>waiting := True, trace := trace s @ [NextTick]\<rparr>)"
  using assms by (auto simp: queueWatcher.simps Let_def)

lemma requeue_frame [simp]:
  "waiting (requeue w s) = waiting s" "flushing (requeue w s) = flushing s"
  "index (requeue w s) = index s" "trace (requeue w s) = trace s"
  "circular (requeue w s) = circular s" "activatedChildren (requeue w s) = activatedChildren s"
  by (simp_all add: requeue_def)


lemma requeue_all_simps [simp]:
  "requeue_all [] s = s" "requeue_all (w # ws) s = requeue_all ws (requeue w s)"
  by (simp_all add: requeue_all_def)

lemma requeue_all_frame [simp]:
  "waiting (requeue_all ws s) = waiting s" "flushing (requeue_all ws s) = flushing s"
  "index (requeue_all ws s) = index s" "trace (requeue_all ws s) = trace s"
  "circular (requeue_all ws s) = circular s"
  "activatedChildren (requeue_all ws s) = activatedChildren s"
  by (induction ws arbitrary: s) simp_all


text \<open>While \<open>waiting\<close> is set, the calls of a \<open>run()\<close> start no flush of their own.\<close>

lemma run_calls_waiting: "waiting s \<Longrightarrow> run_calls e n ws s = Inr (requeue_all ws s)"
proof (induction ws arbitrary: s)
  case Nil
  then show ?case by simp
next
  case (Cons w ws)
  then show ?case by (simp add: queueWatcher_waiting)
qed

subsection \<open>One iteration of the loop\<close>

lemma flush_loop_done: "length (queue s) \<le> index s \<Longrightarrow> flush_loop e n s = Inr s"
  by (simp add: flush_loop.simps)

lemma flush_loop_step:
  assumes "waiting s" "index s < length (queue s)"
  shows "flush_loop e (Suc n) s =
    (let w = queue s ! index s;
         s4 = requeue_all (run e (trace s @ (if has_before w then [Before w] else [])) w)
                (s\<lparr>has := (has s)(id_w w \<mapsto> HNull), trace := trace s @ visit w\<rparr>)
     in if \<not> production e \<and> has s4 (id_w w) = Some HTrue then
          (if counter s4 (id_w w) + 1 > MAX_UPDATE_COUNT
           then Inr (s4\<lparr>circular := (circular s4)(id_w w \<mapsto> counter s4 (id_w w) + 1),
                        trace := trace s4 @ [Warn (loop_warning w) (vm w)]\<rparr>)
           else flush_loop e n (s4\<lparr>circular := (circular s4)(id_w w \<mapsto> counter s4 (id_w w) + 1),
                        index := index s4 + 1\<rparr>))
        else flush_loop e n (s4\<lparr>index := index s4 + 1\<rparr>))"
  using assms
  by (subst flush_loop.simps) (simp add: Let_def visit_def run_calls_waiting counter_def)

lemma flush_loop_passive_step:
  assumes "\<And>tr w. run e tr w = []" "index s < length (queue s)"
  shows "flush_loop e (Suc n) s =
     flush_loop e n (s\<lparr>has := (has s)(id_w (queue s ! index s) \<mapsto> HNull),
        trace := trace s @ visit (queue s ! index s), index := Suc (index s)\<rparr>)"
  using assms
  by (subst flush_loop.simps) (simp add: Let_def visit_def)

subsection \<open>Queueing during a flush\<close>

lemma scan_le: "scan q idx k m \<le> m"
  by (induction m) auto

lemma scan_gt: "idx < m \<Longrightarrow> idx < scan q idx k m"
  by (induction m) auto

lemma scan_skipped: "scan q idx k m \<le> j \<Longrightarrow> j < m \<Longrightarrow> k < id_w (q ! j)"
proof (induction m arbitrary: j)
  case 0
  then show ?case by simp
next
  case (Suc i)
  show ?case
  proof (cases "i > idx \<and> id_w (q ! i) > k")
    case True
    then show ?thesis
      using Suc.IH [of j] Suc.prems by (cases "j = i") auto
  next
    case False
    then show ?thesis using Suc.prems by auto
  qed
qed

lemma scan_stop:
  "idx < m \<Longrightarrow> scan q idx k m = Suc idx \<or> id_w (q ! (scan q idx k m - 1)) \<le> k"
proof (induction m)
  case 0
  then show ?case by simp
next
  case (Suc i)
  show ?case
  proof (cases "i > idx \<and> id_w (q ! i) > k")
    case True
    then show ?thesis using Suc.IH by simp
  next
    case False
    then show ?thesis using Suc.prems by (cases "i = idx") auto
  qed
qed

text \<open>
  Where the insertion of a running flush puts the watcher: behind the cursor, before
  pending watchers of larger ids only, and behind a pending watcher of an id that is
  not larger (or right behind the cursor).
\<close>

lemma enqueue_split:
  assumes "flushing s" "index s < length (queue s)"
  shows "take (Suc (index s)) (queue (enqueue w s)) = take (Suc (index s)) (queue s)
     \<and> (\<exists>A B. drop (Suc (index s)) (queue s) = A @ B
            \<and> drop (Suc (index s)) (queue (enqueue w s)) = A @ [w] @ B
            \<and> (\<forall>x\<in>set B. id_w w < id_w x)
            \<and> (A = [] \<or> id_w (last A) \<le> id_w w))"
proof -
  define q where "q = queue s"
  define idx where "idx = index s"
  define p where "p = scan q idx (id_w w) (length q)"
  have lt: "idx < length q" using assms(2) by (simp add: q_def idx_def)
  have p: "idx < p" "p \<le> length q"
    using scan_gt [OF lt] scan_le by (simp_all add: p_def)
  have q': "queue (enqueue w s) = take p q @ [w] @ drop p q"
    using enqueue_flushing [OF assms(1)] by (simp add: p_def q_def idx_def)
  define A where "A = drop (Suc idx) (take p q)"
  define B where "B = drop p q"
  have 1: "take (Suc idx) (queue (enqueue w s)) = take (Suc idx) q"
    using p by (simp add: q' min_def)
  have "q = take p q @ drop p q" by simp
  then have "drop (Suc idx) q
      = drop (Suc idx) (take p q) @ drop (Suc idx - length (take p q)) (drop p q)"
    by (metis drop_append)
  then have 2: "drop (Suc idx) q = A @ B"
    using p by (simp add: A_def B_def)
  have 3: "drop (Suc idx) (queue (enqueue w s)) = A @ [w] @ B"
    using p by (simp add: q' A_def B_def)
  have 4: "\<forall>x\<in>set B. id_w w < id_w x"
  proof
    fix x assume "x \<in> set B"
    then obtain j where j: "j < length B" "x = B ! j"
      by (auto simp: in_set_conv_nth)
    then have "p + j < length q" "x = q ! (p + j)"
      using p by (simp_all add: B_def)
    then show "id_w w < id_w x"
      using scan_skipped [of q idx "id_w w" "length q" "p + j"] by (simp add: p_def)
  qed
  have 5: "A = [] \<or> id_w (last A) \<le> id_w w"
  proof (cases "p = Suc idx")
    case True
    then show ?thesis by (simp add: A_def)
  next
    case False
    then have gt: "Suc idx < p" using p by simp
    then have ne: "A \<noteq> []" using p by (simp add: A_def)
    have "Suc (p - 2) = p - Suc 0" using gt by arith
    then have "last A = q ! (p - 1)"
      using gt p ne by (simp add: A_def last_conv_nth)
    moreover have "id_w (q ! (p - 1)) \<le> id_w w"
      using scan_stop [OF lt, of q "id_w w"] False by (simp add: p_def)
    ultimately show ?thesis by simp
  qed
  show ?thesis
    using 1 2 3 4 5 by (auto simp: q_def idx_def)
qed

text \<open>
  Queueing leaves the queue up to the cursor alone, and the pending rest where it is,
  in its order; it adds nothing of an id that is not queued.
\<close>

lemma insert_subseq: "subseq (A @ B) (A @ [w] @ B)"
  by (simp add: subseq_append' list_emb_Cons)

lemma append_subseq: "subseq A (A @ [w])"
  by (rule subseq_rev_drop_many) simp

lemma requeue_keeps:
  assumes "index s < length (queue s)"
  shows "take (Suc (index s)) (queue (requeue w s)) = take (Suc (index s)) (queue s)
     \<and> subseq (drop (Suc (index s)) (queue s)) (drop (Suc (index s)) (queue (requeue w s)))
     \<and> (id_w w \<noteq> i \<longrightarrow>
          filter (\<lambda>x. id_w x = i) (drop (Suc (index s)) (queue (requeue w s)))
          = filter (\<lambda>x. id_w x = i) (drop (Suc (index s)) (queue s)))
     \<and> length (queue s) \<le> length (queue (requeue w s))"
proof (cases "has s (id_w w) \<noteq> Some HTrue")
  case False
  then show ?thesis by (simp add: requeue_def)
next
  case new: True
  show ?thesis
  proof (cases "flushing s")
    case True
    from enqueue_split [OF True assms, of w] obtain A B where
      "take (Suc (index s)) (queue (enqueue w s)) = take (Suc (index s)) (queue s)"
      "drop (Suc (index s)) (queue s) = A @ B"
      "drop (Suc (index s)) (queue (enqueue w s)) = A @ [w] @ B"
      by blast
    moreover have "length (queue s) \<le> length (queue (enqueue w s))"
      using True by (simp add: enqueue_flushing)
    ultimately show ?thesis
      using new insert_subseq [of A B w] by (simp add: requeue_def)
  next
    case False
    then show ?thesis
      using new assms append_subseq [of "drop (Suc (index s)) (queue s)" w]
      by (simp add: requeue_def)
  qed
qed

lemma requeue_all_keeps:
  "index s < length (queue s) \<Longrightarrow>
   take (Suc (index s)) (queue (requeue_all ws s)) = take (Suc (index s)) (queue s)
   \<and> subseq (drop (Suc (index s)) (queue s)) (drop (Suc (index s)) (queue (requeue_all ws s)))
   \<and> (i \<notin> id_w ` set ws \<longrightarrow>
          filter (\<lambda>x. id_w x = i) (drop (Suc (index s)) (queue (requeue_all ws s)))
          = filter (\<lambda>x. id_w x = i) (drop (Suc (index s)) (queue s)))
   \<and> length (queue s) \<le> length (queue (requeue_all ws s))"
proof (induction ws arbitrary: s)
  case Nil
  then show ?case by simp
next
  case (Cons w ws)
  note a = requeue_keeps [OF Cons.prems, of w i]
  then have lt: "index (requeue w s) < length (queue (requeue w s))"
    using Cons.prems by simp
  note ih = Cons.IH [OF lt]
  have 1: "take (Suc (index s)) (queue (requeue_all (w # ws) s)) = take (Suc (index s)) (queue s)"
    using a ih by simp
  have "subseq (drop (Suc (index s)) (queue (requeue w s)))
      (drop (Suc (index s)) (queue (requeue_all (w # ws) s)))"
    using ih by simp
  then have 2: "subseq (drop (Suc (index s)) (queue s))
      (drop (Suc (index s)) (queue (requeue_all (w # ws) s)))"
    using a subseq_order.trans by blast
  have 3: "i \<notin> id_w ` set (w # ws) \<longrightarrow>
          filter (\<lambda>x. id_w x = i) (drop (Suc (index s)) (queue (requeue_all (w # ws) s)))
          = filter (\<lambda>x. id_w x = i) (drop (Suc (index s)) (queue s))"
    using a ih by simp
  have 4: "length (queue s) \<le> length (queue (requeue_all (w # ws) s))"
    using a ih by simp
  show ?case using 1 2 3 4 by blast
qed

subsection \<open>The whole loop\<close>

text \<open>
  When the loop has gone through the queue (no circular update stopped it): the
  watchers it has run are the queue from the cursor on, as it stands in the end; the
  watchers that were pending in the beginning are among them, in their order; and of
  an id that no run queues there are as many as there were pending.
\<close>

lemma loop_complete:
  "waiting s \<Longrightarrow> flush_loop e n s = Inr s' \<Longrightarrow> length (queue s') \<le> index s'
   \<Longrightarrow> runs (trace s') = runs (trace s) @ drop (index s) (queue s')
     \<and> take (index s) (queue s') = take (index s) (queue s)
     \<and> subseq (drop (index s) (queue s)) (drop (index s) (queue s'))
     \<and> ((\<forall>tr x. i \<notin> id_w ` set (run e tr x)) \<longrightarrow>
          filter (\<lambda>x. id_w x = i) (drop (index s) (queue s'))
          = filter (\<lambda>x. id_w x = i) (drop (index s) (queue s)))"
proof (induction n arbitrary: s)
  case 0
  have "flush_loop e 0 s = (if index s < length (queue s) then Inl s else Inr s)"
    by (simp add: flush_loop.simps)
  then show ?case
    using "0.prems" by (cases "index s < length (queue s)") simp_all
next
  case (Suc n)
  show ?case
  proof (cases "index s < length (queue s)")
    case False
    then show ?thesis using Suc.prems by (simp add: flush_loop_done)
  next
    case True
    define w where "w = queue s ! index s"
    define s3 where "s3 = s\<lparr>has := (has s)(id_w w \<mapsto> HNull), trace := trace s @ visit w\<rparr>"
    define ws where "ws = run e (trace s @ (if has_before w then [Before w] else [])) w"
    define s4 where "s4 = requeue_all ws s3"
    define c where "c = counter s4 (id_w w) + 1"
    have s3: "index s3 = index s" "queue s3 = queue s"
      by (simp_all add: s3_def)
    have s4: "waiting s4" "trace s4 = trace s @ visit w" "index s4 = index s"
      using Suc.prems by (simp_all add: s4_def s3_def)
    have keep: "take (Suc (index s)) (queue s4) = take (Suc (index s)) (queue s)"
      "subseq (drop (Suc (index s)) (queue s)) (drop (Suc (index s)) (queue s4))"
      "i \<notin> id_w ` set ws \<longrightarrow>
          filter (\<lambda>x. id_w x = i) (drop (Suc (index s)) (queue s4))
          = filter (\<lambda>x. id_w x = i) (drop (Suc (index s)) (queue s))"
      "length (queue s) \<le> length (queue s4)"
      using requeue_all_keeps [of s3 ws i] True s3 by (simp_all add: s4_def)
    have step: "flush_loop e (Suc n) s =
        (if \<not> production e \<and> has s4 (id_w w) = Some HTrue then
          (if c > MAX_UPDATE_COUNT
           then Inr (s4\<lparr>circular := (circular s4)(id_w w \<mapsto> c),
                        trace := trace s4 @ [Warn (loop_warning w) (vm w)]\<rparr>)
           else flush_loop e n (s4\<lparr>circular := (circular s4)(id_w w \<mapsto> c),
                        index := index s4 + 1\<rparr>))
        else flush_loop e n (s4\<lparr>index := index s4 + 1\<rparr>))"
      using flush_loop_step [OF Suc.prems(1) True, of e n]
      by (simp add: Let_def w_def s4_def s3_def ws_def c_def)
    have pend: "drop (index s) (queue s) = w # drop (Suc (index s)) (queue s)"
      using True by (simp add: w_def Cons_nth_drop_Suc)
    consider
      (stop) "s' = s4\<lparr>circular := (circular s4)(id_w w \<mapsto> c),
                      trace := trace s4 @ [Warn (loop_warning w) (vm w)]\<rparr>"
      | (counted) "flush_loop e n (s4\<lparr>circular := (circular s4)(id_w w \<mapsto> c),
                      index := index s4 + 1\<rparr>) = Inr s'"
      | (plain) "flush_loop e n (s4\<lparr>index := index s4 + 1\<rparr>) = Inr s'"
      using Suc.prems(2) unfolding step
      by (cases "\<not> production e \<and> has s4 (id_w w) = Some HTrue";
          cases "c > MAX_UPDATE_COUNT"; simp)
    then have "\<exists>s5. flush_loop e n s5 = Inr s' \<and> waiting s5 \<and> index s5 = Suc (index s)
        \<and> queue s5 = queue s4 \<and> trace s5 = trace s @ visit w"
    proof cases
      case stop
      then have "index s' < length (queue s')"
        using s4 keep True by simp
      then show ?thesis using Suc.prems(3) by simp
    next
      case counted
      then show ?thesis
        using s4
        by (intro exI [of _ "s4\<lparr>circular := (circular s4)(id_w w \<mapsto> c),
              index := index s4 + 1\<rparr>"]) simp
    next
      case plain
      then show ?thesis
        using s4 by (intro exI [of _ "s4\<lparr>index := index s4 + 1\<rparr>"]) simp
    qed
    then obtain s5 where s5: "flush_loop e n s5 = Inr s'" "waiting s5"
      "index s5 = Suc (index s)" "queue s5 = queue s4" "trace s5 = trace s @ visit w"
      by blast
    note ih = Suc.IH [OF s5(2) s5(1) Suc.prems(3)]
    have t: "take (Suc (index s)) (queue s') = take (Suc (index s)) (queue s)"
      using ih s5 keep by simp
    have "length (take (Suc (index s)) (queue s')) = Suc (index s)"
      using t True by simp
    then have len: "index s < length (queue s')"
      by simp
    have "take (Suc (index s)) (queue s') ! index s = take (Suc (index s)) (queue s) ! index s"
      using t by simp
    then have "queue s' ! index s = w"
      by (simp add: w_def)
    then have pend': "drop (index s) (queue s') = w # drop (Suc (index s)) (queue s')"
      using len Cons_nth_drop_Suc [of "index s" "queue s'"] by simp
    have 1: "runs (trace s') = runs (trace s) @ drop (index s) (queue s')"
      using ih s5 pend' by simp
    have 2: "take (index s) (queue s') = take (index s) (queue s)"
      using arg_cong [OF t, of "take (index s)"] by (simp add: min_def)
    have "subseq (drop (Suc (index s)) (queue s4)) (drop (Suc (index s)) (queue s'))"
      using ih s5 by simp
    then have "subseq (drop (Suc (index s)) (queue s)) (drop (Suc (index s)) (queue s'))"
      using keep(2) subseq_order.trans by blast
    then have 3: "subseq (drop (index s) (queue s)) (drop (index s) (queue s'))"
      using pend pend' by simp
    have 4: "(\<forall>tr x. i \<notin> id_w ` set (run e tr x)) \<longrightarrow>
          filter (\<lambda>x. id_w x = i) (drop (index s) (queue s'))
          = filter (\<lambda>x. id_w x = i) (drop (index s) (queue s))"
    proof
      assume a: "\<forall>tr x. i \<notin> id_w ` set (run e tr x)"
      then have "i \<notin> id_w ` set ws" by (simp add: ws_def)
      then show "filter (\<lambda>x. id_w x = i) (drop (index s) (queue s'))
          = filter (\<lambda>x. id_w x = i) (drop (index s) (queue s))"
        using ih s5 keep(3) pend pend' a by simp
    qed
    show ?thesis using 1 2 3 4 by simp
  qed
qed


text \<open>The loop warns exactly when it stops before the end of the queue.\<close>

lemma loop_warnings:
  "waiting s \<Longrightarrow> flush_loop e n s = Inr s'
   \<Longrightarrow> warnings (trace s') = warnings (trace s) + (if length (queue s') \<le> index s' then 0 else 1)"
proof (induction n arbitrary: s)
  case 0
  have "flush_loop e 0 s = (if index s < length (queue s) then Inl s else Inr s)"
    by (simp add: flush_loop.simps)
  then show ?case
    using "0.prems" by (cases "index s < length (queue s)") simp_all
next
  case (Suc n)
  show ?case
  proof (cases "index s < length (queue s)")
    case False
    then show ?thesis using Suc.prems by (simp add: flush_loop_done)
  next
    case True
    define w where "w = queue s ! index s"
    define s3 where "s3 = s\<lparr>has := (has s)(id_w w \<mapsto> HNull), trace := trace s @ visit w\<rparr>"
    define ws where "ws = run e (trace s @ (if has_before w then [Before w] else [])) w"
    define s4 where "s4 = requeue_all ws s3"
    define c where "c = counter s4 (id_w w) + 1"
    have s4: "waiting s4" "trace s4 = trace s @ visit w" "index s4 = index s"
      using Suc.prems by (simp_all add: s4_def s3_def)
    have len: "length (queue s) \<le> length (queue s4)"
      using requeue_all_keeps [of s3 ws 0] True by (simp add: s4_def s3_def)
    have step: "flush_loop e (Suc n) s =
        (if \<not> production e \<and> has s4 (id_w w) = Some HTrue then
          (if c > MAX_UPDATE_COUNT
           then Inr (s4\<lparr>circular := (circular s4)(id_w w \<mapsto> c),
                        trace := trace s4 @ [Warn (loop_warning w) (vm w)]\<rparr>)
           else flush_loop e n (s4\<lparr>circular := (circular s4)(id_w w \<mapsto> c),
                        index := index s4 + 1\<rparr>))
        else flush_loop e n (s4\<lparr>index := index s4 + 1\<rparr>))"
      using flush_loop_step [OF Suc.prems(1) True, of e n]
      by (simp add: Let_def w_def s4_def s3_def ws_def c_def)
    consider
      (stop) "s' = s4\<lparr>circular := (circular s4)(id_w w \<mapsto> c),
                      trace := trace s4 @ [Warn (loop_warning w) (vm w)]\<rparr>"
      | (counted) "flush_loop e n (s4\<lparr>circular := (circular s4)(id_w w \<mapsto> c),
                      index := index s4 + 1\<rparr>) = Inr s'"
      | (plain) "flush_loop e n (s4\<lparr>index := index s4 + 1\<rparr>) = Inr s'"
      using Suc.prems(2) unfolding step
      by (cases "\<not> production e \<and> has s4 (id_w w) = Some HTrue";
          cases "c > MAX_UPDATE_COUNT"; simp)
    then show ?thesis
    proof cases
      case stop
      then show ?thesis using s4 len True by simp
    next
      case counted
      from Suc.IH [OF _ counted] show ?thesis using s4 by simp
    next
      case plain
      from Suc.IH [OF _ plain] show ?thesis using s4 by simp
    qed
  qed
qed

text \<open>The same, of a flush that has returned without a warning.\<close>

lemma flush_complete:
  assumes "waiting s" "flushSchedulerQueue e n s = Inr s'"
    "warnings (trace s') = warnings (trace s)"
  shows "\<exists>rest. runs (trace s') = runs (trace s) @ rest
     \<and> subseq (sort_key id_w (queue s)) rest
     \<and> ((\<forall>tr x. i \<notin> id_w ` set (run e tr x)) \<longrightarrow>
          filter (\<lambda>x. id_w x = i) rest = filter (\<lambda>x. id_w x = i) (sort_key id_w (queue s)))"
proof -
  let ?s0 = "s\<lparr>flushing := True, queue := sort_key id_w (queue s), index := 0\<rparr>"
  obtain s3 where s3: "flush_loop e n ?s0 = Inr s3" "s' = after_loop e s3"
    using assms(2) by (auto simp: flushSchedulerQueue.simps Let_def split: sum.splits)
  have w0: "waiting ?s0" using assms(1) by simp
  have tr: "runs (trace s') = runs (trace s3)" "warnings (trace s') = warnings (trace s3)"
    using s3(2) by (simp_all add: after_loop_def resetSchedulerState_def Let_def)
  have "length (queue s3) \<le> index s3"
    using loop_warnings [OF w0 s3(1)] assms(3) tr by (simp split: if_splits)
  from loop_complete [OF w0 s3(1) this, of i]
  show ?thesis
    using tr by (intro exI [of _ "queue s3"]) simp
qed

subsection \<open>A flush of watchers that queue nothing\<close>

lemma flush_loop_passive:
  assumes "\<And>tr w. run e tr w = []"
  shows "length (queue s) - index s \<le> n \<Longrightarrow>
    \<exists>s'. flush_loop e n s = Inr s' \<and> queue s' = queue s
      \<and> trace s' = trace s @ concat (map visit (drop (index s) (queue s)))
      \<and> activatedChildren s' = activatedChildren s"
proof (induction n arbitrary: s)
  case 0
  then show ?case by (simp add: flush_loop_done)
next
  case (Suc n)
  show ?case
  proof (cases "index s < length (queue s)")
    case False
    then show ?thesis by (simp add: flush_loop_done)
  next
    case True
    let ?s1 = "s\<lparr>has := (has s)(id_w (queue s ! index s) \<mapsto> HNull),
        trace := trace s @ visit (queue s ! index s), index := Suc (index s)\<rparr>"
    have "length (queue ?s1) - index ?s1 \<le> n" using Suc.prems True by simp
    from Suc.IH [OF this] obtain s' where
      s': "flush_loop e n ?s1 = Inr s'" "queue s' = queue s"
        "trace s' = trace s @ visit (queue s ! index s)
           @ concat (map visit (drop (Suc (index s)) (queue s)))"
        "activatedChildren s' = activatedChildren s"
      by auto
    have "drop (index s) (queue s) = queue s ! index s # drop (Suc (index s)) (queue s)"
      using True by (simp add: Cons_nth_drop_Suc)
    then show ?thesis
      using s' flush_loop_passive_step [OF assms True, of n] by simp
  qed
qed

lemma flush_passive:
  assumes "\<And>tr w. run e tr w = []" "length (queue s) \<le> n"
  shows "\<exists>s'. flushSchedulerQueue e n s = Inr s'
     \<and> runs (trace s') = runs (trace s) @ sort_key id_w (queue s)
     \<and> queue s' = [] \<and> \<not> waiting s' \<and> \<not> flushing s' \<and> index s' = 0 \<and> has s' = Map.empty"
proof -
  let ?s0 = "s\<lparr>flushing := True, queue := sort_key id_w (queue s), index := 0\<rparr>"
  have "length (queue ?s0) - index ?s0 \<le> n" using assms(2) by simp
  from flush_loop_passive [OF assms(1) this] obtain s1 where
    s1: "flush_loop e n ?s0 = Inr s1" "queue s1 = sort_key id_w (queue s)"
      "trace s1 = trace s @ concat (map visit (sort_key id_w (queue s)))"
    by auto
  then show ?thesis
    by (simp add: flushSchedulerQueue.simps Let_def after_loop_def resetSchedulerState_def)
qed

lemmas sched_eval = queued_def quiet_env_def mid_env_def loop_env_def plain_watcher_def
  self_watcher_def initial_def queueWatcher.simps enqueue_def Let_def

text \<open>
  C7. A flush sorts the queue by id before it runs anything. When no watcher queues
  another one during the flush, the watchers that were in the queue, in whatever order
  they were queued, are run in ascending order of their ids, each once, and the flush
  returns. Whatever the watchers do when they run: when the flush of a scheduled tick
  has returned without a warning, the watchers queued before it were run in ascending
  order of their ids (those queued during the flush come in between or after).
\<close>

theorem flush_in_id_order:
  "((\<forall>tr w. run e tr w = []) \<and> length (queue s) \<le> n \<longrightarrow>
      (\<exists>s'. flushSchedulerQueue e n s = Inr s'
         \<and> runs (trace s') = runs (trace s) @ sort_key id_w (queue s)))
   \<and> (waiting s \<and> flushSchedulerQueue e n s = Inr t
        \<and> warnings (trace t) = warnings (trace s) \<longrightarrow>
      (\<exists>rest. runs (trace t) = runs (trace s) @ rest
         \<and> subseq (sort_key id_w (queue s)) rest))
   \<and> sorted (map id_w (sort_key id_w (queue s)))
   \<and> set (sort_key id_w (queue s)) = set (queue s)"
proof (intro conjI impI)
  assume "(\<forall>tr w. run e tr w = []) \<and> length (queue s) \<le> n"
  then show "\<exists>s'. flushSchedulerQueue e n s = Inr s'
         \<and> runs (trace s') = runs (trace s) @ sort_key id_w (queue s)"
    using flush_passive [of e s n] by auto
next
  assume "waiting s \<and> flushSchedulerQueue e n s = Inr t
        \<and> warnings (trace t) = warnings (trace s)"
  then show "\<exists>rest. runs (trace t) = runs (trace s) @ rest
         \<and> subseq (sort_key id_w (queue s)) rest"
    using flush_complete [of s e n t] by blast
qed simp_all

text \<open>
  The example of the spec: the watchers 3, 1, 2 are queued in that order. And a flush
  in which the watcher 5 queues the watchers 2 and 8.
\<close>

theorem flush_in_id_order_witness:
  "queue (queued [plain_watcher 3, plain_watcher 1, plain_watcher 2])
     = [plain_watcher 3, plain_watcher 1, plain_watcher 2]
   \<and> runs (trace (state_of (flushSchedulerQueue quiet_env 3
        (queued [plain_watcher 3, plain_watcher 1, plain_watcher 2]))))
     = [plain_watcher 1, plain_watcher 2, plain_watcher 3]
   \<and> subseq [plain_watcher 5, plain_watcher 7]
        (runs (trace (state_of (flushSchedulerQueue mid_env 9
          (queued [plain_watcher 7, plain_watcher 5])))))"
proof -
  let ?s = "queued [plain_watcher 3, plain_watcher 1, plain_watcher 2]"
  let ?u = "queued [plain_watcher 7, plain_watcher 5]"
  let ?t = "state_of (flushSchedulerQueue mid_env 9 ?u)"
  have q: "queue ?s = [plain_watcher 3, plain_watcher 1, plain_watcher 2]"
    "runs (trace ?s) = []" "length (queue ?s) \<le> 3"
    by code_simp+
  have r: "\<forall>tr w. run quiet_env tr w = []"
    by (simp add: quiet_env_def)
  have "\<exists>s'. flushSchedulerQueue quiet_env 3 ?s = Inr s'
         \<and> runs (trace s') = runs (trace ?s) @ sort_key id_w (queue ?s)"
    using flush_in_id_order [of quiet_env ?s 3] q r by blast
  then have a: "runs (trace (state_of (flushSchedulerQueue quiet_env 3 ?s)))
      = [plain_watcher 1, plain_watcher 2, plain_watcher 3]"
    using q by (auto simp: plain_watcher_def)
  have "\<not> isl (flushSchedulerQueue mid_env 9 ?u)"
    by code_simp
  then have u: "flushSchedulerQueue mid_env 9 ?u = Inr ?t"
    by (cases "flushSchedulerQueue mid_env 9 ?u") simp_all
  have v: "waiting ?u" "warnings (trace ?t) = warnings (trace ?u)" "runs (trace ?u) = []"
    "sort_key id_w (queue ?u) = [plain_watcher 5, plain_watcher 7]"
    by code_simp+
  have "\<exists>rest. runs (trace ?t) = runs (trace ?u) @ rest
         \<and> subseq (sort_key id_w (queue ?u)) rest"
    using flush_in_id_order [of mid_env ?u 9 ?t] u v by blast
  then have b: "subseq [plain_watcher 5, plain_watcher 7] (runs (trace ?t))"
    using v by auto
  show ?thesis
    using q a b by simp
qed

subsection \<open>The circular counter\<close>





lemma flush_run_count:
  "run_count i (trace (state_of (flushSchedulerQueue e n s))) =
   run_count i (trace (state_of
     (flush_loop e n (s\<lparr>flushing := True, queue := sort_key id_w (queue s), index := 0\<rparr>))))"
  by (simp add: flushSchedulerQueue.simps Let_def split: sum.splits)

subsection \<open>A watcher that queues itself, alone in the queue\<close>




subsection \<open>A watcher that queues itself, among others\<close>

lemma warnings_visits: "warnings (concat (map visit ws)) = 0"
  by (induction ws) simp_all

lemma warnings_repeat: "warnings (concat (replicate k (visit w))) = 0"
  by (induction k) simp_all

lemma warnings_Warn: "warnings (Warn m v # tr) = Suc (warnings tr)"
  by (simp add: warnings_def)

text \<open>
  When every pending watcher behind the cursor has a larger id, the scan goes back to
  the cursor and the watcher is put right behind it.
\<close>

lemma scan_behind_cursor:
  "idx < m \<Longrightarrow> (\<forall>j. idx < j \<and> j < m \<longrightarrow> k < id_w (q ! j)) \<Longrightarrow> scan q idx k m = Suc idx"
proof (induction m)
  case 0
  then show ?case by simp
next
  case (Suc i)
  show ?case
  proof (cases "idx < i")
    case True
    then have "k < id_w (q ! i)" using Suc.prems(2) by simp
    then show ?thesis using True Suc by simp
  next
    case False
    then have "i = idx" using Suc.prems(1) by simp
    then show ?thesis by simp
  qed
qed

lemma enqueue_behind_cursor:
  assumes "flushing s" "queue s = P @ B" "length P = Suc (index s)"
    "\<forall>x\<in>set B. id_w w < id_w x"
  shows "queue (enqueue w s) = P @ [w] @ B"
proof -
  have "scan (queue s) (index s) (id_w w) (length (queue s)) = Suc (index s)"
  proof (rule scan_behind_cursor)
    show "index s < length (queue s)" using assms(2,3) by simp
    show "\<forall>j. index s < j \<and> j < length (queue s) \<longrightarrow> id_w w < id_w (queue s ! j)"
    proof (intro allI impI)
      fix j assume "index s < j \<and> j < length (queue s)"
      then have "queue s ! j = B ! (j - length P)" "j - length P < length B"
        using assms(2,3) by (auto simp: nth_append)
      then show "id_w w < id_w (queue s ! j)" using assms(4) by simp
    qed
  qed
  then show ?thesis
    using enqueue_flushing [OF assms(1), of w] assms(2,3) by simp
qed

text \<open>
  One iteration on a watcher that queues itself, in a diagnostic build: the queue is
  \<open>A\<close>, then the copies of the watcher up to the cursor, then the pending watchers
  \<open>B\<close> of larger ids.
\<close>

lemma guard_step:
  assumes "waiting s" "flushing s" "queue s = A @ replicate (Suc k) w @ B"
    "index s = length A + k" "\<forall>x\<in>set B. id_w w < id_w x"
    "\<And>tr. run e tr w = [w]" "\<not> production e"
  shows "\<exists>s4. queue s4 = A @ replicate (Suc (Suc k)) w @ B \<and> waiting s4 \<and> flushing s4
     \<and> index s4 = index s \<and> trace s4 = trace s @ visit w
     \<and> activatedChildren s4 = activatedChildren s \<and> circular s4 = circular s
     \<and> flush_loop e (Suc n) s =
        (if counter s (id_w w) + 1 > MAX_UPDATE_COUNT
         then Inr (s4\<lparr>circular := (circular s)(id_w w \<mapsto> counter s (id_w w) + 1),
                      trace := trace s @ visit w @ [Warn (loop_warning w) (vm w)]\<rparr>)
         else flush_loop e n (s4\<lparr>circular := (circular s)(id_w w \<mapsto> counter s (id_w w) + 1),
                      index := Suc (index s)\<rparr>))"
proof -
  define s3 where "s3 = s\<lparr>has := (has s)(id_w w \<mapsto> HNull), trace := trace s @ visit w\<rparr>"
  have i: "index s < length (queue s)" and w: "queue s ! index s = w"
    using assms(3,4) by (simp_all add: nth_append del: replicate.simps)
  have "flushing s3" "queue s3 = (A @ replicate (Suc k) w) @ B"
    "length (A @ replicate (Suc k) w) = Suc (index s3)"
    using assms(2,3,4) by (simp_all add: s3_def del: replicate.simps)
  then have "queue (enqueue w s3) = (A @ replicate (Suc k) w) @ [w] @ B"
    using assms(5) by (rule enqueue_behind_cursor)
  then have q: "queue (enqueue w s3) = A @ replicate (Suc (Suc k)) w @ B"
    by (simp add: replicate_append_same)
  have step: "flush_loop e (Suc n) s =
        (if counter s (id_w w) + 1 > MAX_UPDATE_COUNT
         then Inr ((enqueue w s3)\<lparr>circular := (circular s)(id_w w \<mapsto> counter s (id_w w) + 1),
                      trace := trace s @ visit w @ [Warn (loop_warning w) (vm w)]\<rparr>)
         else flush_loop e n
                ((enqueue w s3)\<lparr>circular := (circular s)(id_w w \<mapsto> counter s (id_w w) + 1),
                      index := Suc (index s)\<rparr>))"
    using flush_loop_step [OF assms(1) i, of e n] assms(6,7)
    by (simp add: w Let_def requeue_def counter_def s3_def)
  show ?thesis
    using q step assms(1,2) by (intro exI [of _ "enqueue w s3"]) (simp add: s3_def)
qed

text \<open>
  From there the loop runs the watcher until its counter exceeds the threshold, warns
  and returns with the cursor on the last run: the watchers \<open>B\<close> are still pending.
\<close>

lemma guard_loop:
  assumes dev: "\<not> production e" and self: "\<And>tr. run e tr w = [w]"
    and larger: "\<forall>x\<in>set B. id_w w < id_w x"
  shows "waiting s \<Longrightarrow> flushing s \<Longrightarrow> queue s = A @ replicate (Suc k) w @ B
    \<Longrightarrow> index s = length A + k \<Longrightarrow> counter s (id_w w) = c \<Longrightarrow> c \<le> 100 \<Longrightarrow> 101 - c \<le> n
    \<Longrightarrow> \<exists>s'. flush_loop e n s = Inr s'
        \<and> trace s' = trace s @ concat (replicate (101 - c) (visit w))
            @ [Warn (loop_warning w) (vm w)]
        \<and> queue s' = A @ replicate (k + 102 - c) w @ B
        \<and> index s' = length A + k + 100 - c
        \<and> activatedChildren s' = activatedChildren s"
proof (induction n arbitrary: s k c)
  case 0
  then show ?case by simp
next
  case (Suc n)
  from guard_step [OF Suc.prems(1-4) larger self dev, of n] obtain s4 where
    s4: "queue s4 = A @ replicate (Suc (Suc k)) w @ B" "waiting s4" "flushing s4"
      "index s4 = index s" "trace s4 = trace s @ visit w"
      "activatedChildren s4 = activatedChildren s" "circular s4 = circular s"
    and step: "flush_loop e (Suc n) s =
        (if counter s (id_w w) + 1 > MAX_UPDATE_COUNT
         then Inr (s4\<lparr>circular := (circular s)(id_w w \<mapsto> counter s (id_w w) + 1),
                      trace := trace s @ visit w @ [Warn (loop_warning w) (vm w)]\<rparr>)
         else flush_loop e n (s4\<lparr>circular := (circular s)(id_w w \<mapsto> counter s (id_w w) + 1),
                      index := Suc (index s)\<rparr>))"
    by blast
  show ?case
  proof (cases "c = 100")
    case True
    then show ?thesis
      using step Suc.prems s4 by (simp add: MAX_UPDATE_COUNT_def)
  next
    case False
    let ?s5 = "s4\<lparr>circular := (circular s)(id_w w \<mapsto> c + 1), index := Suc (length A + k)\<rparr>"
    have st: "flush_loop e (Suc n) s = flush_loop e n ?s5"
      using step Suc.prems False by (simp add: MAX_UPDATE_COUNT_def)
    have "\<exists>s'. flush_loop e n ?s5 = Inr s'
        \<and> trace s' = trace ?s5 @ concat (replicate (101 - (c + 1)) (visit w))
            @ [Warn (loop_warning w) (vm w)]
        \<and> queue s' = A @ replicate (Suc k + 102 - (c + 1)) w @ B
        \<and> index s' = length A + Suc k + 100 - (c + 1)
        \<and> activatedChildren s' = activatedChildren ?s5"
      using Suc.prems False s4 by (intro Suc.IH) (simp_all add: counter_def)
    moreover have "replicate (101 - c) (visit w) = visit w # replicate (101 - (c + 1)) (visit w)"
      using Suc.prems(6) by (cases "101 - c") simp_all
    ultimately show ?thesis
      using st s4 by auto
  qed
qed



text \<open>A sorted list without a repeated key, around one of its elements.\<close>

lemma sorted_split:
  "sorted (map f xs) \<Longrightarrow> distinct (map f xs) \<Longrightarrow> w \<in> set xs \<Longrightarrow>
   xs = filter (\<lambda>x. f x < f w) xs @ [w] @ filter (\<lambda>x. f w < f x) xs"
  for f :: "'a \<Rightarrow> nat"
proof (induction xs)
  case Nil
  then show ?case by simp
next
  case (Cons x xs)
  show ?case
  proof (cases "x = w")
    case True
    have "\<forall>y\<in>set xs. f w < f y"
      using Cons.prems True by (auto simp: le_less)
    then have "filter (\<lambda>x. f x < f w) xs = []" "filter (\<lambda>x. f w < f x) xs = xs"
      by (auto simp: filter_empty_conv filter_id_conv)
    then show ?thesis using True by simp
  next
    case False
    then have w: "w \<in> set xs" using Cons.prems by simp
    then have "f x \<le> f w" "f x \<noteq> f w" using Cons.prems by auto
    then have "f x < f w" by simp
    then show ?thesis
      using Cons.IH w Cons.prems by simp
  qed
qed

text \<open>The loop on pending watchers \<open>P\<close> that queue nothing: one iteration each.\<close>

lemma flush_loop_prefix:
  "waiting s \<Longrightarrow> take (length P) (drop (index s) (queue s)) = P
   \<Longrightarrow> \<forall>x\<in>set P. \<forall>tr. run e tr x = []
   \<Longrightarrow> \<exists>s1. flush_loop e (length P + n) s = flush_loop e n s1
        \<and> queue s1 = queue s \<and> index s1 = index s + length P
        \<and> trace s1 = trace s @ concat (map visit P)
        \<and> waiting s1 \<and> flushing s1 = flushing s \<and> circular s1 = circular s
        \<and> activatedChildren s1 = activatedChildren s"
proof (induction P arbitrary: s)
  case Nil
  then show ?case by (intro exI [of _ s]) simp
next
  case (Cons x P)
  have len: "length (take (length (x # P)) (drop (index s) (queue s))) = length (x # P)"
    using Cons.prems(2) by simp
  then have i: "index s < length (queue s)"
    by (cases "index s < length (queue s)") simp_all
  have d: "drop (index s) (queue s) = queue s ! index s # drop (Suc (index s)) (queue s)"
    using i by (simp add: Cons_nth_drop_Suc)
  have x: "queue s ! index s = x" and P: "take (length P) (drop (Suc (index s)) (queue s)) = P"
    using Cons.prems(2) unfolding d by simp_all
  let ?s1 = "s\<lparr>has := (has s)(id_w x \<mapsto> HNull), trace := trace s @ visit x,
      index := Suc (index s)\<rparr>"
  have r: "run e tr x = []" for tr
    using Cons.prems(3) by simp
  have step: "flush_loop e (Suc (length P + n)) s = flush_loop e (length P + n) ?s1"
    using flush_loop_step [OF Cons.prems(1) i, of e "length P + n"]
    by (simp add: x r Let_def)
  have "\<exists>s1. flush_loop e (length P + n) ?s1 = flush_loop e n s1
        \<and> queue s1 = queue ?s1 \<and> index s1 = index ?s1 + length P
        \<and> trace s1 = trace ?s1 @ concat (map visit P)
        \<and> waiting s1 \<and> flushing s1 = flushing ?s1 \<and> circular s1 = circular ?s1
        \<and> activatedChildren s1 = activatedChildren ?s1"
    using Cons.prems(1,3) P by (intro Cons.IH) simp_all
  then show ?case
    using step by auto
qed

text \<open>
  The flush of a diagnostic build whose queue, of distinct ids, holds a watcher that
  queues itself whenever it runs, when the queued watchers of smaller ids queue
  nothing: these are run, then the watcher 101 times, then the loop warns and stops;
  the queued watchers of larger ids, whatever they would do, are not run, and the
  reset drops them.
\<close>

lemma flush_aborted:
  assumes dev: "\<not> production e" and wt: "waiting s" and self: "\<And>tr. run e tr w = [w]"
    and quiet: "\<forall>x\<in>set (queue s). id_w x < id_w w \<longrightarrow> (\<forall>tr. run e tr x = [])"
    and mem: "w \<in> set (queue s)" and dist: "distinct (map id_w (queue s))"
    and fresh: "circular s (id_w w) = None" and fuel: "length (queue s) + 100 \<le> n"
  shows "\<exists>s'. flushSchedulerQueue e n s = Inr s'
     \<and> runs (trace s') = runs (trace s)
          @ filter (\<lambda>x. id_w x < id_w w) (sort_key id_w (queue s)) @ replicate 101 w
     \<and> warnings (trace s') = warnings (trace s) + 1
     \<and> Warn (loop_warning w) (vm w) \<in> set (trace s')
     \<and> queue s' = [] \<and> has s' = Map.empty \<and> \<not> waiting s' \<and> \<not> flushing s' \<and> index s' = 0"
proof -
  define q where "q = sort_key id_w (queue s)"
  define A where "A = filter (\<lambda>x. id_w x < id_w w) q"
  define B where "B = filter (\<lambda>x. id_w w < id_w x) q"
  let ?s0 = "s\<lparr>flushing := True, queue := q, index := 0\<rparr>"
  have "sorted (map id_w q)" "distinct (map id_w q)" "w \<in> set q"
    using mem dist by (simp_all add: q_def distinct_map)
  then have q: "q = A @ [w] @ B"
    unfolding A_def B_def by (rule sorted_split)
  have "length q = length (queue s)" by (simp add: q_def)
  then have "length A + 101 \<le> n" using fuel q by simp
  then obtain m where n: "n = length A + m" and m: "101 \<le> m"
    by (metis le_add_diff_inverse add_leD1 add_le_cancel_left)
  have quietA: "\<forall>x\<in>set A. \<forall>tr. run e tr x = []"
    using quiet by (auto simp: A_def q_def)
  have "\<exists>s1. flush_loop e (length A + m) ?s0 = flush_loop e m s1
        \<and> queue s1 = queue ?s0 \<and> index s1 = index ?s0 + length A
        \<and> trace s1 = trace ?s0 @ concat (map visit A)
        \<and> waiting s1 \<and> flushing s1 = flushing ?s0 \<and> circular s1 = circular ?s0
        \<and> activatedChildren s1 = activatedChildren ?s0"
    using wt quietA q by (intro flush_loop_prefix) simp_all
  then obtain s1 where s1: "flush_loop e n ?s0 = flush_loop e m s1"
    "queue s1 = A @ replicate (Suc 0) w @ B" "index s1 = length A + 0"
    "trace s1 = trace s @ concat (map visit A)" "waiting s1" "flushing s1"
    "circular s1 = circular s"
    using n q by auto
  have larger: "\<forall>x\<in>set B. id_w w < id_w x"
    by (simp add: B_def)
  have "counter s1 (id_w w) = 0"
    using s1(7) fresh by (simp add: counter_def)
  from guard_loop [OF dev self larger s1(5,6,2,3) this, of m] m obtain s2 where
    s2: "flush_loop e m s1 = Inr s2"
      "trace s2 = trace s1 @ concat (replicate 101 (visit w)) @ [Warn (loop_warning w) (vm w)]"
    by auto
  have "flushSchedulerQueue e n s = Inr (after_loop e s2)"
    using s1(1) s2(1) by (simp add: flushSchedulerQueue.simps Let_def q_def)
  then show ?thesis
    using s2(2) s1(4)
    by (simp add: after_loop_def resetSchedulerState_def Let_def A_def q_def warnings_visits
        warnings_repeat warnings_Warn)
qed




subsection \<open>Queueing between two flushes\<close>

lemma queueWatcher_idle:
  assumes "production e \<or> async e" "idle_inv s"
  shows "\<exists>s'. queueWatcher e n w s = Inr s' \<and> idle_inv s'
     \<and> id_w ` set (queue s') = insert (id_w w) (id_w ` set (queue s))
     \<and> runs (trace s') = runs (trace s) \<and> length (queue s') \<le> Suc (length (queue s))"
proof (cases "has s (id_w w) = Some HTrue")
  case True
  then have "id_w w \<in> id_w ` set (queue s)" using assms(2) by (simp add: idle_inv_def)
  then show ?thesis
    using True assms(2) by (auto simp: queueWatcher_present)
next
  case False
  then have new: "id_w w \<notin> id_w ` set (queue s)" using assms(2) by (simp add: idle_inv_def)
  have nf: "\<not> flushing s" using assms(2) by (simp add: idle_inv_def)
  have "waiting s \<Longrightarrow> idle_inv (enqueue w s)"
    using assms(2) new nf by (auto simp: idle_inv_def)
  moreover have "idle_inv ((enqueue w s)\<lparr>waiting := True, trace := trace s @ [NextTick]\<rparr>)"
    using assms(2) new nf by (auto simp: idle_inv_def)
  ultimately show ?thesis
    using False nf by (auto simp: queueWatcher_deferred [OF assms(1)])
qed

lemma run_calls_idle:
  assumes "production e \<or> async e"
  shows "idle_inv s \<Longrightarrow> \<exists>s'. run_calls e n ws s = Inr s' \<and> idle_inv s'
     \<and> id_w ` set (queue s') = id_w ` set ws \<union> id_w ` set (queue s)
     \<and> runs (trace s') = runs (trace s) \<and> length (queue s') \<le> length ws + length (queue s)"
proof (induction ws arbitrary: s)
  case Nil
  then show ?case by simp
next
  case (Cons w ws)
  from queueWatcher_idle [OF assms Cons.prems, of n w] obtain s1 where
    s1: "queueWatcher e n w s = Inr s1" "idle_inv s1"
      "id_w ` set (queue s1) = insert (id_w w) (id_w ` set (queue s))"
      "runs (trace s1) = runs (trace s)" "length (queue s1) \<le> Suc (length (queue s))"
    by blast
  from Cons.IH [OF s1(2)] obtain s' where
    s': "run_calls e n ws s1 = Inr s'" "idle_inv s'"
      "id_w ` set (queue s') = id_w ` set ws \<union> id_w ` set (queue s1)"
      "runs (trace s') = runs (trace s1)" "length (queue s') \<le> length ws + length (queue s1)"
    by blast
  show ?case
    using s1 s' by auto
qed

lemma count_distinct_key:
  "distinct (map f xs) \<Longrightarrow> i \<in> f ` set xs \<Longrightarrow> length (filter (\<lambda>x. f x = i) xs) = 1"
proof (induction xs)
  case Nil
  then show ?case by simp
next
  case (Cons x xs)
  show ?case
  proof (cases "f x = i")
    case True
    then have "i \<notin> f ` set xs" using Cons.prems by auto
    then have "filter (\<lambda>x. f x = i) xs = []" by (auto simp: filter_empty_conv)
    then show ?thesis using True by simp
  next
    case False
    then show ?thesis using Cons by auto
  qed
qed

text \<open>
  An id that no run queues is run at most as often as it is pending, however the loop
  ends: when it has returned, with or without a warning, and when it is still running.
\<close>

lemma loop_at_most:
  assumes none: "\<forall>tr x. i \<notin> id_w ` set (run e tr x)"
  shows "waiting s \<Longrightarrow>
    run_count i (trace (state_of (flush_loop e n s)))
      \<le> run_count i (trace s) + length (filter (\<lambda>x. id_w x = i) (drop (index s) (queue s)))"
proof (induction n arbitrary: s)
  case 0
  then show ?case by (simp add: flush_loop.simps)
next
  case (Suc n)
  show ?case
  proof (cases "index s < length (queue s)")
    case False
    then show ?thesis by (simp add: flush_loop_done)
  next
    case True
    define w where "w = queue s ! index s"
    define s3 where "s3 = s\<lparr>has := (has s)(id_w w \<mapsto> HNull), trace := trace s @ visit w\<rparr>"
    define ws where "ws = run e (trace s @ (if has_before w then [Before w] else [])) w"
    define s4 where "s4 = requeue_all ws s3"
    define c where "c = counter s4 (id_w w) + 1"
    have s4: "waiting s4" "trace s4 = trace s @ visit w" "index s4 = index s"
      using Suc.prems by (simp_all add: s4_def s3_def)
    have "i \<notin> id_w ` set ws" using none by (simp add: ws_def)
    then have keep: "filter (\<lambda>x. id_w x = i) (drop (Suc (index s)) (queue s4))
          = filter (\<lambda>x. id_w x = i) (drop (Suc (index s)) (queue s))"
      using requeue_all_keeps [of s3 ws i] True by (simp add: s4_def s3_def)
    have pend: "drop (index s) (queue s) = w # drop (Suc (index s)) (queue s)"
      using True by (simp add: w_def Cons_nth_drop_Suc)
    have step: "flush_loop e (Suc n) s =
        (if \<not> production e \<and> has s4 (id_w w) = Some HTrue then
          (if c > MAX_UPDATE_COUNT
           then Inr (s4\<lparr>circular := (circular s4)(id_w w \<mapsto> c),
                        trace := trace s4 @ [Warn (loop_warning w) (vm w)]\<rparr>)
           else flush_loop e n (s4\<lparr>circular := (circular s4)(id_w w \<mapsto> c),
                        index := index s4 + 1\<rparr>))
        else flush_loop e n (s4\<lparr>index := index s4 + 1\<rparr>))"
      using flush_loop_step [OF Suc.prems(1) True, of e n]
      by (simp add: Let_def w_def s4_def s3_def ws_def c_def)
    have cnt: "run_count i (trace s4)
          + length (filter (\<lambda>x. id_w x = i) (drop (Suc (index s)) (queue s4)))
        = run_count i (trace s)
          + length (filter (\<lambda>x. id_w x = i) (drop (index s) (queue s)))"
      using s4 keep pend by simp
    have ih: "run_count i (trace (state_of (flush_loop e n s5)))
          \<le> run_count i (trace s)
            + length (filter (\<lambda>x. id_w x = i) (drop (index s) (queue s)))"
      if "waiting s5" "trace s5 = trace s4" "queue s5 = queue s4" "index s5 = Suc (index s)"
      for s5
      using Suc.IH [OF that(1)] that(2-4) cnt by simp
    have a: "run_count i (trace (state_of (flush_loop e n
            (s4\<lparr>circular := (circular s4)(id_w w \<mapsto> c), index := index s4 + 1\<rparr>))))
          \<le> run_count i (trace s)
            + length (filter (\<lambda>x. id_w x = i) (drop (index s) (queue s)))"
      using s4 by (intro ih) simp_all
    have b: "run_count i (trace (state_of (flush_loop e n (s4\<lparr>index := index s4 + 1\<rparr>))))
          \<le> run_count i (trace s)
            + length (filter (\<lambda>x. id_w x = i) (drop (index s) (queue s)))"
      using s4 by (intro ih) simp_all
    have c: "run_count i (trace s4 @ [Warn (loop_warning w) (vm w)])
          \<le> run_count i (trace s)
            + length (filter (\<lambda>x. id_w x = i) (drop (index s) (queue s)))"
      using cnt by simp
    show ?thesis
      unfolding step using a b c by simp
  qed
qed

text \<open>
  C6, as the spec has it: the flush that follows runs the queued watcher exactly once,
  whatever else is queued. The watcher 3, which queues nothing, is queued twice and
  the watcher 1, which queues itself whenever it runs, once. The flush runs the
  watcher 1 101 times, warns and stops; it returns, the watcher 3 has not been run,
  and the reset has dropped it from the queue and from the presence object.
\<close>

theorem aborted_flush_counterexample:
  "queue (queued [plain_watcher 3, plain_watcher 3, self_watcher])
     = [plain_watcher 3, self_watcher]
   \<and> \<not> isl (flushSchedulerQueue guard_env 102
        (queued [plain_watcher 3, plain_watcher 3, self_watcher]))
   \<and> run_count 3 (trace (state_of (flushSchedulerQueue guard_env 102
        (queued [plain_watcher 3, plain_watcher 3, self_watcher])))) = 0
   \<and> run_count 1 (trace (state_of (flushSchedulerQueue guard_env 102
        (queued [plain_watcher 3, plain_watcher 3, self_watcher])))) = 101
   \<and> queue (state_of (flushSchedulerQueue guard_env 102
        (queued [plain_watcher 3, plain_watcher 3, self_watcher]))) = []
   \<and> has (state_of (flushSchedulerQueue guard_env 102
        (queued [plain_watcher 3, plain_watcher 3, self_watcher]))) 3 = None"
proof -
  let ?u = "queued [plain_watcher 3, plain_watcher 3, self_watcher]"
  have u: "queue ?u = [plain_watcher 3, self_watcher]" "waiting ?u"
    "trace ?u = [NextTick]" "circular ?u (id_w self_watcher) = None"
    by (simp_all add: sched_eval)
  have h: "\<not> production guard_env"
    "\<And>tr. run guard_env tr self_watcher = [self_watcher]"
    "\<forall>x\<in>set (queue ?u). id_w x < id_w self_watcher
       \<longrightarrow> (\<forall>tr. run guard_env tr x = [])"
    "self_watcher \<in> set (queue ?u)" "distinct (map id_w (queue ?u))"
    "length (queue ?u) + 100 \<le> 102"
    "filter (\<lambda>x. id_w x < id_w self_watcher) (sort_key id_w (queue ?u)) = []"
    unfolding u(1) by (simp_all add: guard_env_def plain_watcher_def self_watcher_def)
  from flush_aborted [OF h(1) u(2) h(2) h(3) h(4) h(5) u(4) h(6)] obtain s' where
    s': "flushSchedulerQueue guard_env 102 ?u = Inr s'"
    "runs (trace s') = runs (trace ?u)
        @ filter (\<lambda>x. id_w x < id_w self_watcher) (sort_key id_w (queue ?u))
        @ replicate 101 self_watcher"
    "queue s' = []" "has s' = Map.empty"
    by blast
  have "runs (trace s') = replicate 101 self_watcher"
    using s'(2) u(3) h(7) by simp
  then have "run_count 3 (trace s') = 0" "run_count 1 (trace s') = 101"
    by (simp_all add: run_count_def self_watcher_def)
  then show ?thesis
    using s' u(1) by simp
qed

text \<open>
  C6, amended. A call of \<open>queueWatcher\<close> for an id the presence object holds is a
  no-op. So when the watchers \<open>ws\<close> (the same one any number of times) are queued
  after a reset and the flush is deferred to the tick, none of them is run while they
  are queued and each id is in the queue once. In the flush that follows, an id that
  no run queues again is run at most once, however the flush ends, and exactly once
  when the flush has returned without a warning; when no watcher queues anything
  while it runs, the flush does return and has run the id exactly once. In the
  synchronous diagnostic configuration every call that queues a watcher is a flush of
  its own, which runs the watcher once.
\<close>

theorem dedup_between_flushes:
  assumes "queue s = []" "has s = Map.empty" "\<not> flushing s" and "w \<in> set ws"
  shows "(has t (id_w x) = Some HTrue \<longrightarrow> queueWatcher e m x t = Inr t)
     \<and> (production e \<or> async e \<longrightarrow>
         (\<exists>s1. run_calls e m ws s = Inr s1
          \<and> run_count (id_w w) (trace s1) = run_count (id_w w) (trace s)
          \<and> length (filter (\<lambda>x. id_w x = id_w w) (queue s1)) = 1
          \<and> ((\<forall>tr x. run e tr x = []) \<and> length ws \<le> n \<longrightarrow>
               (\<exists>s2. flushSchedulerQueue e n s1 = Inr s2
                  \<and> run_count (id_w w) (trace s2) = run_count (id_w w) (trace s) + 1))
          \<and> (\<forall>s2. (\<forall>tr x. id_w w \<notin> id_w ` set (run e tr x))
                  \<and> flushSchedulerQueue e n s1 = Inr s2
                  \<and> warnings (trace s2) = warnings (trace s1) \<longrightarrow>
               run_count (id_w w) (trace s2) = run_count (id_w w) (trace s) + 1)
          \<and> ((\<forall>tr x. id_w w \<notin> id_w ` set (run e tr x)) \<longrightarrow>
               run_count (id_w w) (trace (state_of (flushSchedulerQueue e n s1)))
                 \<le> run_count (id_w w) (trace s) + 1)))
     \<and> (\<not> production e \<and> \<not> async e \<and> \<not> waiting s \<and> (\<forall>tr x. run e tr x = []) \<and> 1 \<le> n \<longrightarrow>
         (\<exists>s'. queueWatcher e n w s = Inr s' \<and> runs (trace s') = runs (trace s) @ [w]
            \<and> queue s' = [] \<and> has s' = Map.empty \<and> \<not> waiting s'))"
proof (intro conjI impI)
  assume "has t (id_w x) = Some HTrue"
  then show "queueWatcher e m x t = Inr t"
    by (rule queueWatcher_present)
next
  assume deferred: "production e \<or> async e"
  have "idle_inv s" using assms(1-3) by (simp add: idle_inv_def)
  from run_calls_idle [OF deferred this, of m ws] obtain s1 where
    s1: "run_calls e m ws s = Inr s1" "idle_inv s1"
      "id_w ` set (queue s1) = id_w ` set ws \<union> id_w ` set (queue s)"
      "runs (trace s1) = runs (trace s)" "length (queue s1) \<le> length ws + length (queue s)"
    by blast
  have "id_w w \<in> id_w ` set (queue s1)" using s1(3) assms(4) by auto
  moreover have "distinct (map id_w (queue s1))" using s1(2) by (simp add: idle_inv_def)
  ultimately have one: "length (filter (\<lambda>x. id_w x = id_w w) (queue s1)) = 1"
    by (intro count_distinct_key)
  then have one': "length (filter (\<lambda>x. id_w x = id_w w) (sort_key id_w (queue s1))) = 1"
    by (simp add: filter_sort)
  have "queue s1 \<noteq> []" using one by auto
  then have wt: "waiting s1" using s1(2) by (simp add: idle_inv_def)
  have a: "(\<forall>tr x. run e tr x = []) \<and> length ws \<le> n \<longrightarrow>
               (\<exists>s2. flushSchedulerQueue e n s1 = Inr s2
                  \<and> run_count (id_w w) (trace s2) = run_count (id_w w) (trace s) + 1)"
  proof
    assume h: "(\<forall>tr x. run e tr x = []) \<and> length ws \<le> n"
    then have "length (queue s1) \<le> n" using s1(5) assms(1) by simp
    from flush_passive [of e s1 n] h this obtain s2 where
      "flushSchedulerQueue e n s1 = Inr s2"
      "runs (trace s2) = runs (trace s1) @ sort_key id_w (queue s1)"
      by blast
    then show "\<exists>s2. flushSchedulerQueue e n s1 = Inr s2
                  \<and> run_count (id_w w) (trace s2) = run_count (id_w w) (trace s) + 1"
      using one' s1(4) by (simp add: run_count_def)
  qed
  have b: "\<forall>s2. (\<forall>tr x. id_w w \<notin> id_w ` set (run e tr x))
                  \<and> flushSchedulerQueue e n s1 = Inr s2
                  \<and> warnings (trace s2) = warnings (trace s1) \<longrightarrow>
               run_count (id_w w) (trace s2) = run_count (id_w w) (trace s) + 1"
  proof (intro allI impI)
    fix s2
    assume h: "(\<forall>tr x. id_w w \<notin> id_w ` set (run e tr x))
                  \<and> flushSchedulerQueue e n s1 = Inr s2
                  \<and> warnings (trace s2) = warnings (trace s1)"
    from flush_complete [OF wt, of e n s2 "id_w w"] h obtain rest where
      "runs (trace s2) = runs (trace s1) @ rest"
      "filter (\<lambda>x. id_w x = id_w w) rest
         = filter (\<lambda>x. id_w x = id_w w) (sort_key id_w (queue s1))"
      by blast
    then show "run_count (id_w w) (trace s2) = run_count (id_w w) (trace s) + 1"
      using one' s1(4) by (simp add: run_count_def)
  qed
  have c: "(\<forall>tr x. id_w w \<notin> id_w ` set (run e tr x)) \<longrightarrow>
               run_count (id_w w) (trace (state_of (flushSchedulerQueue e n s1)))
                 \<le> run_count (id_w w) (trace s) + 1"
  proof
    let ?s0 = "s1\<lparr>flushing := True, queue := sort_key id_w (queue s1), index := 0\<rparr>"
    assume h: "\<forall>tr x. id_w w \<notin> id_w ` set (run e tr x)"
    have "waiting ?s0" using wt by simp
    from loop_at_most [OF h this, of n]
    have "run_count (id_w w) (trace (state_of (flush_loop e n ?s0)))
        \<le> run_count (id_w w) (trace s1) + 1"
      using one' by simp
    moreover have "run_count (id_w w) (trace s1) = run_count (id_w w) (trace s)"
      using s1(4) by (simp add: run_count_def)
    ultimately show "run_count (id_w w) (trace (state_of (flushSchedulerQueue e n s1)))
        \<le> run_count (id_w w) (trace s) + 1"
      by (simp add: flush_run_count)
  qed
  show "\<exists>s1. run_calls e m ws s = Inr s1
          \<and> run_count (id_w w) (trace s1) = run_count (id_w w) (trace s)
          \<and> length (filter (\<lambda>x. id_w x = id_w w) (queue s1)) = 1
          \<and> ((\<forall>tr x. run e tr x = []) \<and> length ws \<le> n \<longrightarrow>
               (\<exists>s2. flushSchedulerQueue e n s1 = Inr s2
                  \<and> run_count (id_w w) (trace s2) = run_count (id_w w) (trace s) + 1))
          \<and> (\<forall>s2. (\<forall>tr x. id_w w \<notin> id_w ` set (run e tr x))
                  \<and> flushSchedulerQueue e n s1 = Inr s2
                  \<and> warnings (trace s2) = warnings (trace s1) \<longrightarrow>
               run_count (id_w w) (trace s2) = run_count (id_w w) (trace s) + 1)
          \<and> ((\<forall>tr x. id_w w \<notin> id_w ` set (run e tr x)) \<longrightarrow>
               run_count (id_w w) (trace (state_of (flushSchedulerQueue e n s1)))
                 \<le> run_count (id_w w) (trace s) + 1)"
    using s1(1,4) one a b c by (intro exI [of _ s1]) (simp add: run_count_def)
next
  assume h: "\<not> production e \<and> \<not> async e \<and> \<not> waiting s \<and> (\<forall>tr x. run e tr x = []) \<and> 1 \<le> n"
  let ?s2 = "(enqueue w s)\<lparr>waiting := True\<rparr>"
  have q: "queueWatcher e n w s = flushSchedulerQueue e n ?s2"
    using h assms(2) by (simp add: queueWatcher.simps Let_def)
  have "length (queue ?s2) \<le> n" using h assms(1,3) by simp
  from flush_passive [of e ?s2 n] h this obtain s' where
    "flushSchedulerQueue e n ?s2 = Inr s'"
    "runs (trace s') = runs (trace ?s2) @ sort_key id_w (queue ?s2)"
    "queue s' = []" "has s' = Map.empty" "\<not> waiting s'"
    by blast
  then show "\<exists>s'. queueWatcher e n w s = Inr s' \<and> runs (trace s') = runs (trace s) @ [w]
            \<and> queue s' = [] \<and> has s' = Map.empty \<and> \<not> waiting s'"
    using q assms(1,3) by simp
qed

text \<open>
  The watcher 4 is queued three times, the watcher 2 in between; the watcher 5
  twice, before a flush in which it queues the watchers 2 and 8; the watcher 3 twice,
  before a flush that the watcher 1 brings to a stop; and the watcher 4 in the
  synchronous configuration.
\<close>

theorem dedup_between_flushes_witness:
  "queue (queued [plain_watcher 4, plain_watcher 4, plain_watcher 2, plain_watcher 4])
     = [plain_watcher 4, plain_watcher 2]
   \<and> queueWatcher quiet_env 0 (plain_watcher 4)
       (queued [plain_watcher 4, plain_watcher 4, plain_watcher 2, plain_watcher 4])
     = Inr (queued [plain_watcher 4, plain_watcher 4, plain_watcher 2, plain_watcher 4])
   \<and> run_count 4 (trace (state_of (flushSchedulerQueue quiet_env 4
        (queued [plain_watcher 4, plain_watcher 4, plain_watcher 2, plain_watcher 4])))) = 1
   \<and> run_count 5 (trace (state_of (flushSchedulerQueue mid_env 9
        (queued [plain_watcher 5, plain_watcher 5])))) = 1
   \<and> run_count 3 (trace (state_of (flushSchedulerQueue guard_env 102
        (queued [plain_watcher 3, plain_watcher 3, self_watcher])))) \<le> 1
   \<and> runs (trace (state_of (queueWatcher sync_env 1 (plain_watcher 4) initial)))
     = [plain_watcher 4]"
proof -
  let ?ws = "[plain_watcher 4, plain_watcher 4, plain_watcher 2, plain_watcher 4]"
  let ?vs = "[plain_watcher 5, plain_watcher 5]"
  let ?us = "[plain_watcher 3, plain_watcher 3, self_watcher]"
  let ?t = "state_of (flushSchedulerQueue mid_env 9 (queued ?vs))"
  have q: "queue (queued ?ws) = [plain_watcher 4, plain_watcher 2]"
    "has (queued ?ws) (id_w (plain_watcher 4)) = Some HTrue"
    "run_count 4 (trace initial) = 0" "run_count 5 (trace initial) = 0"
    "runs (trace initial) = []"
    by code_simp+
  have c: "run_calls quiet_env 0 ?ws initial = Inr (queued ?ws)"
    "run_calls mid_env 0 ?vs initial = Inr (queued ?vs)"
    by (simp_all add: sched_eval)
  have h: "production quiet_env \<or> async quiet_env" "production mid_env \<or> async mid_env"
    "queue initial = []" "has initial = Map.empty" "\<not> flushing initial"
    "plain_watcher 4 \<in> set ?ws" "plain_watcher 5 \<in> set ?vs"
    "\<forall>tr x. run quiet_env tr x = []" "length ?ws \<le> 4"
    "\<not> production sync_env \<and> \<not> async sync_env \<and> \<not> waiting initial
       \<and> (\<forall>tr x. run sync_env tr x = []) \<and> (1::nat) \<le> 1"
    by (simp_all add: quiet_env_def mid_env_def sync_env_def initial_def plain_watcher_def)
  have k: "\<forall>tr x. id_w (plain_watcher 5) \<notin> id_w ` set (run mid_env tr x)"
    by (auto simp: mid_env_def plain_watcher_def)
  have "\<not> isl (flushSchedulerQueue mid_env 9 (queued ?vs))"
    by code_simp
  then have u: "flushSchedulerQueue mid_env 9 (queued ?vs) = Inr ?t"
    by (cases "flushSchedulerQueue mid_env 9 (queued ?vs)") simp_all
  have v: "warnings (trace ?t) = warnings (trace (queued ?vs))"
    by code_simp
  from dedup_between_flushes [OF h(3-6), where t = "queued ?ws"
      and x = "plain_watcher 4" and m = 0 and n = 4 and e = quiet_env]
  have a: "queueWatcher quiet_env 0 (plain_watcher 4) (queued ?ws) = Inr (queued ?ws)"
    "run_count 4 (trace (state_of (flushSchedulerQueue quiet_env 4 (queued ?ws)))) = 1"
    using q c(1) h(1,8,9) by (auto simp: plain_watcher_def)
  from dedup_between_flushes [OF h(3-5) h(7), where t = "queued ?vs"
      and x = "plain_watcher 5" and m = 0 and n = 9 and e = mid_env]
  have b: "run_count 5 (trace ?t) = 1"
    using q c(2) h(2) k u v by (auto simp: plain_watcher_def)
  from dedup_between_flushes [OF h(3-6), where t = "queued ?ws"
      and x = "plain_watcher 4" and m = 0 and n = 1 and e = sync_env]
  have d: "runs (trace (state_of (queueWatcher sync_env 1 (plain_watcher 4) initial)))
     = [plain_watcher 4]"
    using q(5) h(10) by auto
  have g: "production guard_env \<or> async guard_env" "plain_watcher 3 \<in> set ?us"
    "\<forall>tr x. id_w (plain_watcher 3) \<notin> id_w ` set (run guard_env tr x)"
    "run_count 3 (trace initial) = 0"
    by (auto simp: guard_env_def plain_watcher_def initial_def)
  have g': "run_calls guard_env 0 ?us initial = Inr (queued ?us)"
    by (simp add: sched_eval guard_env_def)
  from dedup_between_flushes [OF h(3-5) g(2), where t = "queued ?us"
      and x = "plain_watcher 3" and m = 0 and n = 102 and e = guard_env]
  have f: "run_count 3 (trace (state_of (flushSchedulerQueue guard_env 102 (queued ?us)))) \<le> 1"
    using g g' by (auto simp: plain_watcher_def)
  show ?thesis
    using q(1) a b d f by simp
qed

subsection \<open>A watcher that queues two others\<close>





end
